theory Spec2Isabelle
  imports Main "HOL-Library.Sublist" "HOL-Library.List_Lexorder" "HOL-Library.Char_ord"
begin

section \<open>The Go library functions the program calls\<close>

text \<open>
  The program (\<^verbatim>\<open>src/main.go\<close>) is a directory walk with two file processors. Its own
  code is translated below function by function; the functions of the Go standard
  library it calls (\<^verbatim>\<open>strings\<close>, \<^verbatim>\<open>path/filepath\<close>) are modelled here from their
  documented behaviour. A Go \<^verbatim>\<open>string\<close> is a sequence of bytes: \<^typ>\<open>string\<close>.
\<close>

subsection \<open>\<^verbatim>\<open>unicode/utf8\<close>: the width of the first rune\<close>

text \<open>
  \<^verbatim>\<open>strings.Replace\<close> with an empty \<^verbatim>\<open>old\<close> and \<^verbatim>\<open>strings.Split\<close> with an empty
  separator step through the string one UTF-8 sequence at a time. \<open>DecodeRuneWidth\<close> is
  the width returned by \<^verbatim>\<open>utf8.DecodeRuneInString\<close>: 0 on the empty string, 1 on an
  ASCII byte and on every invalid or truncated encoding, otherwise 2, 3 or 4.
\<close>

definition byte :: "char \<Rightarrow> nat" where
  "byte c = of_char c"

definition rune_size :: "nat \<Rightarrow> nat" where
  "rune_size b0 =
     (if b0 < 0xC2 then 1 else if b0 < 0xE0 then 2 else if b0 < 0xF0 then 3
      else if b0 < 0xF5 then 4 else 1)"

definition accept_lo :: "nat \<Rightarrow> nat" where
  "accept_lo b0 = (if b0 = 0xE0 then 0xA0 else if b0 = 0xF0 then 0x90 else 0x80)"

definition accept_hi :: "nat \<Rightarrow> nat" where
  "accept_hi b0 = (if b0 = 0xED then 0x9F else if b0 = 0xF4 then 0x8F else 0xBF)"

definition DecodeRuneWidth :: "string \<Rightarrow> nat" where
  "DecodeRuneWidth s =
     (case s of
        [] \<Rightarrow> 0
      | s0 # _ \<Rightarrow>
          let sz = rune_size (byte s0) in
          if sz = 1 then 1
          else if length s < sz then 1
          else if byte (s ! 1) < accept_lo (byte s0) \<or> accept_hi (byte s0) < byte (s ! 1) then 1
          else if sz \<le> 2 then 2
          else if byte (s ! 2) < 0x80 \<or> 0xBF < byte (s ! 2) then 1
          else if sz \<le> 3 then 3
          else if byte (s ! 3) < 0x80 \<or> 0xBF < byte (s ! 3) then 1
          else 4)"

subsection \<open>\<^verbatim>\<open>strings\<close>\<close>

text \<open>\<^verbatim>\<open>strings.HasPrefix(s, p)\<close> and \<^verbatim>\<open>strings.HasSuffix(s, p)\<close>.\<close>

definition HasPrefix :: "string \<Rightarrow> string \<Rightarrow> bool" where
  "HasPrefix s p = prefix p s"

definition HasSuffix :: "string \<Rightarrow> string \<Rightarrow> bool" where
  "HasSuffix s p = suffix p s"

text \<open>\<^verbatim>\<open>strings.Contains(s, substr)\<close>: \<open>substr\<close> occurs in \<open>s\<close> at some position.\<close>

fun Contains :: "string \<Rightarrow> string \<Rightarrow> bool" where
  "Contains [] substr = (substr = [])"
| "Contains (c # cs) substr = (prefix substr (c # cs) \<or> Contains cs substr)"

text \<open>
  \<^verbatim>\<open>strings.Replace(s, old, new, n)\<close> returns a copy of \<open>s\<close> with the first \<open>n\<close>
  non-overlapping instances of \<open>old\<close> replaced by \<open>new\<close>, scanning from the left; a
  negative \<open>n\<close> means no limit. An empty \<open>old\<close> matches at the beginning of the string
  and after each UTF-8 sequence. The library returns \<open>s\<close> itself when \<open>old = new\<close> or
  \<open>n = 0\<close>.

  \<open>replaceN k\<close> replaces the first \<open>k\<close> instances of a non-empty \<open>old\<close>;
  \<open>insertN k\<close> inserts \<open>new\<close> after each of the first \<open>k\<close> UTF-8 sequences. With no
  limit the library takes the number of instances for \<open>n\<close>, which is at most
  \<open>length s + 1\<close>.
\<close>

fun replaceN :: "nat \<Rightarrow> string \<Rightarrow> string \<Rightarrow> string \<Rightarrow> string" where
  "replaceN 0 s old new = s"
| "replaceN (Suc k) [] old new = []"
| "replaceN (Suc k) (c # cs) old new =
     (if prefix old (c # cs) then new @ replaceN k (drop (length old) (c # cs)) old new
      else c # replaceN (Suc k) cs old new)"

fun insertN :: "nat \<Rightarrow> string \<Rightarrow> string \<Rightarrow> string" where
  "insertN 0 s new = s"
| "insertN (Suc k) s new =
     (if s = [] then []
      else take (DecodeRuneWidth s) s @ new @ insertN k (drop (DecodeRuneWidth s) s) new)"

definition Replace :: "string \<Rightarrow> string \<Rightarrow> string \<Rightarrow> int \<Rightarrow> string" where
  "Replace s old new n =
     (if old = new \<or> n = 0 then s
      else let k = (if n < 0 then length s + 1 else nat n) in
        if old = [] then new @ insertN (k - 1) s new
        else replaceN k s old new)"

definition ReplaceAll :: "string \<Rightarrow> string \<Rightarrow> string \<Rightarrow> string" where
  "ReplaceAll s old new = Replace s old new (- 1)"

text \<open>
  \<^verbatim>\<open>strings.Split(s, sep)\<close> cuts \<open>s\<close> at every non-overlapping instance of \<open>sep\<close>,
  from the left, and returns the pieces between them: always at least one piece when
  \<open>sep\<close> is not empty. An empty \<open>sep\<close> splits after each UTF-8 sequence.
  \<^verbatim>\<open>strings.Join(elems, sep)\<close> concatenates the pieces with \<open>sep\<close> between them.
\<close>

function split_from :: "string \<Rightarrow> string \<Rightarrow> string \<Rightarrow> string list" where
  "split_from sep acc [] = [rev acc]"
| "split_from sep acc (c # cs) =
     (if sep \<noteq> [] \<and> prefix sep (c # cs)
      then rev acc # split_from sep [] (drop (length sep) (c # cs))
      else split_from sep (c # acc) cs)"
  by pat_completeness auto
termination
  by (relation "measure (\<lambda>(sep, acc, s). length s)") auto

fun explode_runes :: "nat \<Rightarrow> string \<Rightarrow> string list" where
  "explode_runes 0 s = []"
| "explode_runes (Suc k) s =
     (if s = [] then []
      else take (DecodeRuneWidth s) s # explode_runes k (drop (DecodeRuneWidth s) s))"

definition Split :: "string \<Rightarrow> string \<Rightarrow> string list" where
  "Split s sep = (if sep = [] then explode_runes (length s) s else split_from sep [] s)"

fun Join :: "string list \<Rightarrow> string \<Rightarrow> string" where
  "Join [] sep = []"
| "Join [e] sep = e"
| "Join (e # es) sep = e @ sep @ Join es sep"

subsection \<open>\<^verbatim>\<open>path/filepath\<close>, on a Unix system\<close>

text \<open>
  \<^verbatim>\<open>filepath.Separator\<close> is \<open>/\<close>. \<^verbatim>\<open>filepath.Clean\<close> works on the path's elements:
  empty elements and \<open>.\<close> are dropped, \<open>..\<close> removes the element before it (at the
  root it is dropped, at the start of a relative path it is kept), and the empty
  result is \<open>.\<close>. \<^verbatim>\<open>filepath.Dir\<close> cleans the path up to its last separator;
  \<^verbatim>\<open>filepath.Base\<close> is the last element; \<^verbatim>\<open>filepath.Join\<close> cleans the elements joined
  by separators, from the first non-empty one.
\<close>

type_synonym path = string

definition Separator :: char where
  "Separator = CHR ''/''"

definition clean_step :: "bool \<Rightarrow> string list \<Rightarrow> string \<Rightarrow> string list" where
  "clean_step rooted st c =
     (if c = [] \<or> c = ''.'' then st
      else if c = ''..'' then
        (if st \<noteq> [] \<and> last st \<noteq> ''..'' then butlast st
         else if rooted then st else st @ [''..''])
      else st @ [c])"

definition Clean :: "path \<Rightarrow> path" where
  "Clean p =
     (if p = [] then ''.''
      else let rooted = (hd p = Separator);
               st = foldl (clean_step rooted) [] (Split p [Separator])
           in if rooted then Separator # Join st [Separator]
              else if st = [] then ''.'' else Join st [Separator])"

definition Dir :: "path \<Rightarrow> path" where
  "Dir p = Clean (rev (dropWhile (\<lambda>c. c \<noteq> Separator) (rev p)))"

definition Base :: "path \<Rightarrow> string" where
  "Base p =
     (if p = [] then ''.''
      else let q = rev (dropWhile (\<lambda>c. c = Separator) (rev p));
               b = rev (takeWhile (\<lambda>c. c \<noteq> Separator) (rev q))
           in if b = [] then [Separator] else b)"

definition filepath_Join :: "string list \<Rightarrow> path" where
  "filepath_Join elem =
     (case dropWhile (\<lambda>e. e = []) elem of
        [] \<Rightarrow> []
      | es \<Rightarrow> Clean (Join es [Separator]))"

section \<open>The operating system, as the program sees it\<close>

text \<open>
  The program reaches the file system through seven calls. Their results are not
  decided by the program, so the model takes them from an interface \<open>'w OS\<close> over a
  state \<open>'w\<close> of the outside world: every theorem stated for an arbitrary \<open>os\<close>
  holds whatever the file system answers. An \<^verbatim>\<open>error\<close> of the \<^verbatim>\<open>os\<close> package carries
  its message and whether \<^verbatim>\<open>os.IsNotExist\<close> holds of it.
\<close>

datatype oserror = OSError (IsNotExist: bool) (Error: string)

datatype FileInfo = FileInfo (Name: string) (IsDir: bool)

record 'w OS =
  os_ReadFile :: "path \<Rightarrow> 'w \<Rightarrow> (oserror + string) \<times> 'w"
  os_WriteFile :: "path \<Rightarrow> string \<Rightarrow> 'w \<Rightarrow> oserror option \<times> 'w"
  os_Stat :: "path \<Rightarrow> 'w \<Rightarrow> oserror option \<times> 'w"
  os_MkdirAll :: "path \<Rightarrow> 'w \<Rightarrow> oserror option \<times> 'w"
  os_Rename :: "path \<Rightarrow> path \<Rightarrow> 'w \<Rightarrow> oserror option \<times> 'w"
  os_Lstat :: "path \<Rightarrow> 'w \<Rightarrow> (oserror + FileInfo) \<times> 'w"
  os_readDirNames :: "path \<Rightarrow> 'w \<Rightarrow> (oserror + string list) \<times> 'w"

text \<open>
  A run of the program carries the state of the world, the calls made so far with
  their results (oldest first), and what was printed.
\<close>

datatype event =
    ReadFile path "oserror + string"
  | WriteFile path string "oserror option"
  | Stat path "oserror option"
  | MkdirAll path "oserror option"
  | Rename path path "oserror option"
  | Lstat path "oserror + FileInfo"
  | ReadDirNames path "oserror + string list"

datatype printout = Line string | Usage

record 'w run =
  world :: 'w
  calls :: "event list"
  printed :: "printout list"

definition Printf :: "string \<Rightarrow> 'w run \<Rightarrow> 'w run" where
  "Printf l r = r\<lparr>printed := printed r @ [Line l]\<rparr>"

definition call_ReadFile :: "'w OS \<Rightarrow> path \<Rightarrow> 'w run \<Rightarrow> (oserror + string) \<times> 'w run" where
  "call_ReadFile os p r =
     (case os_ReadFile os p (world r) of
        (res, w) \<Rightarrow> (res, r\<lparr>world := w, calls := calls r @ [ReadFile p res]\<rparr>))"

definition call_WriteFile :: "'w OS \<Rightarrow> path \<Rightarrow> string \<Rightarrow> 'w run \<Rightarrow> oserror option \<times> 'w run" where
  "call_WriteFile os p c r =
     (case os_WriteFile os p c (world r) of
        (res, w) \<Rightarrow> (res, r\<lparr>world := w, calls := calls r @ [WriteFile p c res]\<rparr>))"

definition call_Stat :: "'w OS \<Rightarrow> path \<Rightarrow> 'w run \<Rightarrow> oserror option \<times> 'w run" where
  "call_Stat os p r =
     (case os_Stat os p (world r) of
        (res, w) \<Rightarrow> (res, r\<lparr>world := w, calls := calls r @ [Stat p res]\<rparr>))"

definition call_MkdirAll :: "'w OS \<Rightarrow> path \<Rightarrow> 'w run \<Rightarrow> oserror option \<times> 'w run" where
  "call_MkdirAll os p r =
     (case os_MkdirAll os p (world r) of
        (res, w) \<Rightarrow> (res, r\<lparr>world := w, calls := calls r @ [MkdirAll p res]\<rparr>))"

definition call_Rename :: "'w OS \<Rightarrow> path \<Rightarrow> path \<Rightarrow> 'w run \<Rightarrow> oserror option \<times> 'w run" where
  "call_Rename os p q r =
     (case os_Rename os p q (world r) of
        (res, w) \<Rightarrow> (res, r\<lparr>world := w, calls := calls r @ [Rename p q res]\<rparr>))"

definition call_Lstat :: "'w OS \<Rightarrow> path \<Rightarrow> 'w run \<Rightarrow> (oserror + FileInfo) \<times> 'w run" where
  "call_Lstat os p r =
     (case os_Lstat os p (world r) of
        (res, w) \<Rightarrow> (res, r\<lparr>world := w, calls := calls r @ [Lstat p res]\<rparr>))"

definition call_readDirNames :: "'w OS \<Rightarrow> path \<Rightarrow> 'w run \<Rightarrow> (oserror + string list) \<times> 'w run" where
  "call_readDirNames os p r =
     (case os_readDirNames os p (world r) of
        (res, w) \<Rightarrow> (res, r\<lparr>world := w, calls := calls r @ [ReadDirNames p res]\<rparr>))"

section \<open>The two file processors\<close>

text \<open>
  A Go \<^verbatim>\<open>error\<close> returned through the walk is \<^verbatim>\<open>filepath.SkipDir\<close> or an error
  with a message (\<^verbatim>\<open>fmt.Errorf\<close> with \<^verbatim>\<open>%w\<close> appends the message of the cause). The
  walk's callback dereferences \<^verbatim>\<open>info\<close>; on a nil \<^verbatim>\<open>info\<close> that is a panic, \<open>NilDeref\<close>.
\<close>

datatype error = SkipDir | Err string | NilDeref

definition wrap :: "oserror \<Rightarrow> error" where
  "wrap e = Err (Error e)"

text \<open>The content rewriting of \<^verbatim>\<open>processJavaFile\<close>, lines 63 to 68.\<close>

definition javaContent :: "string \<Rightarrow> string \<Rightarrow> string \<Rightarrow> string" where
  "javaContent oldName newName originalContent =
     (let modifiedContent = originalContent;
          modifiedContent = ReplaceAll modifiedContent (''package '' @ oldName) (''package '' @ newName);
          modifiedContent = ReplaceAll modifiedContent (''import '' @ oldName) (''import '' @ newName)
      in modifiedContent)"

text \<open>
  Lines 90 to 96, and again 156 to 162: the file is written only when the content
  changed.
\<close>

definition writeIfModified ::
  "'w OS \<Rightarrow> path \<Rightarrow> string \<Rightarrow> string \<Rightarrow> 'w run \<Rightarrow> error option \<times> 'w run" where
  "writeIfModified os filePath originalContent modifiedContent r =
     (if modifiedContent \<noteq> originalContent then
        (case call_WriteFile os filePath modifiedContent r of
           (Some err, r') \<Rightarrow>
             (Some (Err (''failed to write file '' @ filePath @ '': '' @ Error err)), r')
         | (None, r') \<Rightarrow> (None, Printf (''Updated content of '' @ filePath) r'))
      else (None, r))"

text \<open>Lines 98 to 117: the file is renamed when its path contains the old package path.\<close>

definition ensureDir :: "'w OS \<Rightarrow> path \<Rightarrow> 'w run \<Rightarrow> error option \<times> 'w run" where
  "ensureDir os newDir r =
     (case call_Stat os newDir r of
        (Some err, r') \<Rightarrow>
          (if IsNotExist err then
             (case call_MkdirAll os newDir r' of
                (Some err', r'') \<Rightarrow>
                  (Some (Err (''failed to create directory '' @ newDir @ '': '' @ Error err')), r'')
              | (None, r'') \<Rightarrow> (None, r''))
           else (None, r'))
      | (None, r') \<Rightarrow> (None, r'))"

definition renameFile ::
  "'w OS \<Rightarrow> path \<Rightarrow> string \<Rightarrow> string \<Rightarrow> 'w run \<Rightarrow> error option \<times> 'w run" where
  "renameFile os filePath oldPackagePath newPackagePath r =
     (if Contains filePath oldPackagePath then
        (let newFilePath = Replace filePath oldPackagePath newPackagePath 1 in
         if newFilePath \<noteq> filePath then
           (let newDir = Dir newFilePath in
            case ensureDir os newDir r of
              (Some e, r') \<Rightarrow> (Some e, r')
            | (None, r') \<Rightarrow>
                (case call_Rename os filePath newFilePath r' of
                   (Some err, r'') \<Rightarrow>
                     (Some (Err (''failed to rename file from '' @ filePath @ '' to ''
                                  @ newFilePath @ '': '' @ Error err)), r'')
                 | (None, r'') \<Rightarrow>
                     (None, Printf (''Renamed file from '' @ filePath @ '' to '' @ newFilePath) r'')))
         else (None, r))
      else (None, r))"

text \<open>
  \<^verbatim>\<open>processJavaFile\<close>. The branch on \<^verbatim>\<open>strings.HasPrefix(oldName, newName)\<close> at
  lines 78 to 83 has two empty arms and no effect.
\<close>

definition processJavaFile ::
  "'w OS \<Rightarrow> path \<Rightarrow> string \<Rightarrow> string \<Rightarrow> 'w run \<Rightarrow> error option \<times> 'w run" where
  "processJavaFile os filePath oldName newName r =
     (case call_ReadFile os filePath (Printf (''Processing Java file: '' @ filePath) r) of
        (Inl err, r1) \<Rightarrow>
          (Some (Err (''failed to read file '' @ filePath @ '': '' @ Error err)), r1)
      | (Inr content, r1) \<Rightarrow>
          (let originalContent = content;
               modifiedContent = javaContent oldName newName originalContent;
               oldPackagePath = ReplaceAll oldName ''.'' [Separator];
               newPackagePath = ReplaceAll newName ''.'' [Separator]
           in case writeIfModified os filePath originalContent modifiedContent r1 of
                (Some e, r2) \<Rightarrow> (Some e, r2)
              | (None, r2) \<Rightarrow> renameFile os filePath oldPackagePath newPackagePath r2))"

text \<open>
  The content rewriting of \<^verbatim>\<open>processBuildFile\<close>, lines 130 to 153. \<^verbatim>\<open>oldParts\<close> and
  \<^verbatim>\<open>newParts\<close> are never empty, so \<^verbatim>\<open>oldParts[len(oldParts)-1]\<close> is the last part; the
  test is kept as the source has it.
\<close>

definition buildContent :: "string \<Rightarrow> string \<Rightarrow> string \<Rightarrow> string" where
  "buildContent oldName newName originalContent =
     (let modifiedContent = originalContent;
          modifiedContent = ReplaceAll modifiedContent oldName newName;
          oldParts = Split oldName ''.'';
          newParts = Split newName ''.''
      in if length oldParts > 0 \<and> length newParts > 0 then
           (let oldArtifact = oldParts ! (length oldParts - 1);
                newArtifact = newParts ! (length newParts - 1);
                modifiedContent = ReplaceAll modifiedContent oldArtifact newArtifact;
                oldGroup = Join (take (length oldParts - 1) oldParts) ''.'';
                newGroup = Join (take (length newParts - 1) newParts) ''.''
            in if oldGroup \<noteq> [] \<and> newGroup \<noteq> []
               then ReplaceAll modifiedContent oldGroup newGroup
               else modifiedContent)
         else modifiedContent)"

definition processBuildFile ::
  "'w OS \<Rightarrow> path \<Rightarrow> string \<Rightarrow> string \<Rightarrow> 'w run \<Rightarrow> error option \<times> 'w run" where
  "processBuildFile os filePath oldName newName r =
     (case call_ReadFile os filePath (Printf (''Processing build file: '' @ filePath) r) of
        (Inl err, r1) \<Rightarrow>
          (Some (Err (''failed to read file '' @ filePath @ '': '' @ Error err)), r1)
      | (Inr content, r1) \<Rightarrow>
          (let originalContent = content;
               modifiedContent = buildContent oldName newName originalContent
           in writeIfModified os filePath originalContent modifiedContent r1))"

section \<open>The walk\<close>

text \<open>
  \<^verbatim>\<open>filepath.Walk(root, fn)\<close> calls \<open>fn\<close> on the root and on every entry below it, a
  directory before its entries, the entries of a directory in the order
  \<^verbatim>\<open>readDirNames\<close> gives (sorted by name). The names of a directory are read before
  \<open>fn\<close> is called on it. When \<open>fn\<close> returns \<^verbatim>\<open>SkipDir\<close> on a directory its entries
  are skipped; any other error ends the walk and is returned.

  The callback may create directories, so the depth of the walk has no bound known
  in advance: \<open>walk\<close> takes fuel, one unit for each level of directories, and returns
  \<open>None\<close> as its result when the fuel is used up. The run reached is returned in
  every case.
\<close>

type_synonym 'w WalkFunc =
  "path \<Rightarrow> FileInfo option \<Rightarrow> error option \<Rightarrow> 'w run \<Rightarrow> error option \<times> 'w run"

function walk ::
    "'w OS \<Rightarrow> 'w WalkFunc \<Rightarrow> nat \<Rightarrow> path \<Rightarrow> FileInfo \<Rightarrow> 'w run \<Rightarrow> error option option \<times> 'w run"
  and walk_names ::
    "'w OS \<Rightarrow> 'w WalkFunc \<Rightarrow> nat \<Rightarrow> path \<Rightarrow> string list \<Rightarrow> 'w run \<Rightarrow> error option option \<times> 'w run"
  where
  "walk os fn 0 path info r = (None, r)"
| "walk os fn (Suc k) path info r =
     (if \<not> IsDir info then
        (case fn path (Some info) None r of (err, r') \<Rightarrow> (Some err, r'))
      else
        (case call_readDirNames os path r of
           (res, r1) \<Rightarrow>
             (let err = (case res of Inl e \<Rightarrow> Some (wrap e) | Inr _ \<Rightarrow> None) in
              case fn path (Some info) err r1 of
                (err1, r2) \<Rightarrow>
                  if err \<noteq> None \<or> err1 \<noteq> None then (Some err1, r2)
                  else walk_names os fn k path (case res of Inl _ \<Rightarrow> [] | Inr names \<Rightarrow> names) r2)))"
| "walk_names os fn k path [] r = (Some None, r)"
| "walk_names os fn k path (name # names) r =
     (let filename = filepath_Join [path, name] in
      case call_Lstat os filename r of
        (Inl e, r1) \<Rightarrow>
          (case fn filename None (Some (wrap e)) r1 of
             (err, r2) \<Rightarrow>
               if err \<noteq> None \<and> err \<noteq> Some SkipDir then (Some err, r2)
               else walk_names os fn k path names r2)
      | (Inr fileInfo, r1) \<Rightarrow>
          (case walk os fn k filename fileInfo r1 of
             (None, r2) \<Rightarrow> (None, r2)
           | (Some err, r2) \<Rightarrow>
               if err \<noteq> None \<and> (\<not> IsDir fileInfo \<or> err \<noteq> Some SkipDir) then (Some err, r2)
               else walk_names os fn k path names r2))"
  by pat_completeness auto
termination
  by (relation "inv_image (less_than <*lex*> less_than)
        (\<lambda>x. case x of
           Inl (os, fn, k, path, info, r) \<Rightarrow> (k, 0)
         | Inr (os, fn, k, path, names, r) \<Rightarrow> (k, Suc (length names)))") auto

definition Walk ::
  "'w OS \<Rightarrow> path \<Rightarrow> 'w WalkFunc \<Rightarrow> nat \<Rightarrow> 'w run \<Rightarrow> error option option \<times> 'w run" where
  "Walk os root fn fuel r =
     (case call_Lstat os root r of
        (Inl e, r1) \<Rightarrow>
          (case fn root None (Some (wrap e)) r1 of
             (err, r2) \<Rightarrow> (Some (if err = Some SkipDir then None else err), r2))
      | (Inr info, r1) \<Rightarrow>
          (case walk os fn fuel root info r1 of
             (None, r2) \<Rightarrow> (None, r2)
           | (Some err, r2) \<Rightarrow> (Some (if err = Some SkipDir then None else err), r2)))"

section \<open>\<^verbatim>\<open>main\<close>\<close>

text \<open>The function literal passed to \<^verbatim>\<open>filepath.Walk\<close>, lines 25 to 46.\<close>

definition visit :: "'w OS \<Rightarrow> string \<Rightarrow> string \<Rightarrow> 'w WalkFunc" where
  "visit os oldName newName path info err r =
     (if err \<noteq> None then (err, r)
      else case info of
        None \<Rightarrow> (Some NilDeref, r)
      | Some info \<Rightarrow>
          if IsDir info \<and> (Name info = ''.git'' \<or> Name info = ''target'') then (Some SkipDir, r)
          else if \<not> IsDir info \<and> HasSuffix (Name info) ''.java''
            then processJavaFile os path oldName newName r
          else if \<not> IsDir info \<and> (Name info = ''pom.xml'' \<or> Name info = ''build.gradle'')
            then processBuildFile os path oldName newName r
          else (None, r))"

text \<open>
  \<^verbatim>\<open>main\<close>, after \<^verbatim>\<open>flag.Parse\<close>: the three flag values are its arguments, an absent flag
  being the empty string. \<^verbatim>\<open>log.Fatal\<close> ends the process with the message given.
\<close>

datatype exit = Exit0 | Fatal string | Panic

definition message :: "error \<Rightarrow> string" where
  "message e = (case e of Err m \<Rightarrow> m | SkipDir \<Rightarrow> ''skip this directory'' | NilDeref \<Rightarrow> [])"

definition main ::
  "'w OS \<Rightarrow> string \<Rightarrow> string \<Rightarrow> string \<Rightarrow> nat \<Rightarrow> 'w run \<Rightarrow> exit option \<times> 'w run" where
  "main os projectDir oldName newName fuel r =
     (if projectDir = [] \<or> oldName = [] \<or> newName = [] then
        (Some (Fatal ''All flags --dir, --old, and --new are required.''),
         r\<lparr>printed := printed r @ [Usage]\<rparr>)
      else
        (case Walk os projectDir (visit os oldName newName) fuel
                (Printf (''Renaming Java project in '' @ projectDir @ '' from '' @ [CHR 0x27]
                         @ oldName @ [CHR 0x27] @ '' to '' @ [CHR 0x27] @ newName @ [CHR 0x27]) r) of
           (None, r') \<Rightarrow> (None, r')
         | (Some (Some NilDeref), r') \<Rightarrow> (Some Panic, r')
         | (Some (Some err), r') \<Rightarrow>
             (Some (Fatal (''Error walking the directory: '' @ message err)), r')
         | (Some None, r') \<Rightarrow>
             (Some Exit0,
              Printf ''Renaming complete. Please verify the changes and rebuild your Java project.'' r')))"

section \<open>Vocabulary of the properties\<close>

text \<open>The calls made between two points of a run.\<close>

definition since :: "'w run \<Rightarrow> 'w run \<Rightarrow> event list" where
  "since r r' = drop (length (calls r)) (calls r')"

text \<open>The files written, the renames and the directory creations among some calls.\<close>

definition writes :: "event list \<Rightarrow> (path \<times> string) list" where
  "writes es = concat (map (\<lambda>e. case e of WriteFile p c _ \<Rightarrow> [(p, c)] | _ \<Rightarrow> []) es)"

definition renames :: "event list \<Rightarrow> (path \<times> path) list" where
  "renames es = concat (map (\<lambda>e. case e of Rename p q _ \<Rightarrow> [(p, q)] | _ \<Rightarrow> []) es)"

definition mkdirs :: "event list \<Rightarrow> path list" where
  "mkdirs es = concat (map (\<lambda>e. case e of MkdirAll d _ \<Rightarrow> [d] | _ \<Rightarrow> []) es)"

text \<open>
  The error the program returns when a call fails, as the source words it. The
  result of \<^verbatim>\<open>os.Stat\<close> is only inspected with \<^verbatim>\<open>os.IsNotExist\<close>, never returned.
\<close>

fun error_of :: "event \<Rightarrow> string option" where
  "error_of (ReadFile p (Inl e)) = Some (''failed to read file '' @ p @ '': '' @ Error e)"
| "error_of (WriteFile p c (Some e)) = Some (''failed to write file '' @ p @ '': '' @ Error e)"
| "error_of (MkdirAll d (Some e)) = Some (''failed to create directory '' @ d @ '': '' @ Error e)"
| "error_of (Rename p q (Some e)) =
     Some (''failed to rename file from '' @ p @ '' to '' @ q @ '': '' @ Error e)"
| "error_of (Lstat p (Inl e)) = Some (Error e)"
| "error_of (ReadDirNames p (Inl e)) = Some (Error e)"
| "error_of _ = None"

text \<open>
  The build-file rewriting in the words of the specification: the artifact of a dotted
  name is its trailing segment, the group is the dotted prefix before it.
\<close>

definition trailing_segment :: "string \<Rightarrow> string" where
  "trailing_segment name = rev (takeWhile (\<lambda>c. c \<noteq> CHR ''.'') (rev name))"

definition dotted_prefix :: "string \<Rightarrow> string" where
  "dotted_prefix name = rev (drop 1 (dropWhile (\<lambda>c. c \<noteq> CHR ''.'') (rev name)))"

definition spec_buildContent :: "string \<Rightarrow> string \<Rightarrow> string \<Rightarrow> string" where
  "spec_buildContent oldName newName content =
     (let c1 = ReplaceAll content oldName newName;
          c2 = ReplaceAll c1 (trailing_segment oldName) (trailing_segment newName)
      in if dotted_prefix oldName \<noteq> [] \<and> dotted_prefix newName \<noteq> []
         then ReplaceAll c2 (dotted_prefix oldName) (dotted_prefix newName)
         else c2)"

text \<open>\<^verbatim>\<open>os.IsNotExist(err)\<close> on the result of \<^verbatim>\<open>os.Stat\<close>; it is false of \<^verbatim>\<open>nil\<close>.\<close>

definition notexist :: "oserror option \<Rightarrow> bool" where
  "notexist st = (case st of Some e \<Rightarrow> IsNotExist e | None \<Rightarrow> False)"

section \<open>A file system in memory\<close>

text \<open>
  An instance of the interface, for running the program on examples: the file system
  is a list of cleaned paths, each a file with its content or a directory.
\<close>

datatype node = File string | Directory

type_synonym memfs = "(path \<times> node) list"

definition lookup :: "memfs \<Rightarrow> path \<Rightarrow> node option" where
  "lookup fs p = map_of fs (Clean p)"

definition store :: "memfs \<Rightarrow> path \<Rightarrow> node \<Rightarrow> memfs" where
  "store fs p n = (Clean p, n) # filter (\<lambda>(q, _). q \<noteq> Clean p) fs"

definition ENOENT :: "string \<Rightarrow> path \<Rightarrow> oserror" where
  "ENOENT call p = OSError True (call @ '' '' @ p @ '': no such file or directory'')"

definition failure :: "string \<Rightarrow> path \<Rightarrow> string \<Rightarrow> oserror" where
  "failure call p why = OSError False (call @ '' '' @ p @ '': '' @ why)"

text \<open>
  The paths above a path, outermost first, and the path itself last. A path that is not
  in the file system is reported as not existing, unless one of the paths above it is a
  regular file: then the error is \<^verbatim>\<open>ENOTDIR\<close>, of which \<^verbatim>\<open>os.IsNotExist\<close> is false.
\<close>

definition ancestors :: "path \<Rightarrow> path list" where
  "ancestors p = [take k p. k \<leftarrow> [1..<Suc (length p)], k = length p \<or> p ! k = Separator]"

definition under_file :: "memfs \<Rightarrow> path \<Rightarrow> bool" where
  "under_file fs p =
     list_ex (\<lambda>d. case map_of fs d of Some (File _) \<Rightarrow> True | _ \<Rightarrow> False)
       (butlast (ancestors (Clean p)))"

definition missing :: "string \<Rightarrow> path \<Rightarrow> memfs \<Rightarrow> oserror" where
  "missing call p fs =
     (if under_file fs p then failure call p ''not a directory'' else ENOENT call p)"

definition mem_ReadFile :: "path \<Rightarrow> memfs \<Rightarrow> (oserror + string) \<times> memfs" where
  "mem_ReadFile p fs =
     (case lookup fs p of
        Some (File c) \<Rightarrow> (Inr c, fs)
      | Some Directory \<Rightarrow> (Inl (failure ''read'' p ''is a directory''), fs)
      | None \<Rightarrow> (Inl (missing ''open'' p fs), fs))"

definition mem_WriteFile :: "path \<Rightarrow> string \<Rightarrow> memfs \<Rightarrow> oserror option \<times> memfs" where
  "mem_WriteFile p c fs =
     (case lookup fs p of
        Some Directory \<Rightarrow> (Some (failure ''open'' p ''is a directory''), fs)
      | _ \<Rightarrow>
         (case lookup fs (Dir p) of
            Some Directory \<Rightarrow> (None, store fs p (File c))
          | _ \<Rightarrow> (Some (missing ''open'' p fs), fs)))"

definition mem_Stat :: "path \<Rightarrow> memfs \<Rightarrow> oserror option \<times> memfs" where
  "mem_Stat p fs =
     (case lookup fs p of None \<Rightarrow> (Some (missing ''stat'' p fs), fs) | Some _ \<Rightarrow> (None, fs))"

text \<open>
  \<^verbatim>\<open>os.MkdirAll\<close> creates the directory and the missing directories above it; it fails
  at the first path that is a regular file.
\<close>

fun make_dirs :: "path list \<Rightarrow> memfs \<Rightarrow> oserror option \<times> memfs" where
  "make_dirs [] fs = (None, fs)"
| "make_dirs (d # ds) fs =
     (case map_of fs d of
        Some (File _) \<Rightarrow> (Some (failure ''mkdir'' d ''not a directory''), fs)
      | Some Directory \<Rightarrow> make_dirs ds fs
      | None \<Rightarrow> make_dirs ds ((d, Directory) # fs))"

definition mem_MkdirAll :: "path \<Rightarrow> memfs \<Rightarrow> oserror option \<times> memfs" where
  "mem_MkdirAll p fs = make_dirs (ancestors (Clean p)) fs"

text \<open>
  \<^verbatim>\<open>os.Rename(a, b)\<close>. Go refuses a target that is an existing directory (\<^verbatim>\<open>EEXIST\<close>);
  otherwise the system call replaces a target that is a regular file, and moves a
  directory with everything below it. Its errors name both paths.
\<close>

definition below :: "path \<Rightarrow> path \<Rightarrow> bool" where
  "below d q = prefix (if d = [Separator] then d else d @ [Separator]) q"

definition link_error :: "bool \<Rightarrow> path \<Rightarrow> path \<Rightarrow> string \<Rightarrow> oserror" where
  "link_error gone a b why = OSError gone (''rename '' @ a @ '' '' @ b @ '': '' @ why)"

definition mem_Rename :: "path \<Rightarrow> path \<Rightarrow> memfs \<Rightarrow> oserror option \<times> memfs" where
  "mem_Rename a b fs =
     (let a' = Clean a; b' = Clean b in
      case map_of fs a' of
        None \<Rightarrow>
          (Some (if under_file fs a then link_error False a b ''not a directory''
                 else link_error True a b ''no such file or directory''), fs)
      | Some n \<Rightarrow>
          if map_of fs b' = Some Directory \<and> (b = a \<or> a' \<noteq> b')
            then (Some (link_error False a b ''file exists''), fs)
          else if a' = b' then (None, fs)
          else if lookup fs (Dir b') \<noteq> Some Directory
            then (Some (if under_file fs b then link_error False a b ''not a directory''
                        else link_error True a b ''no such file or directory''), fs)
          else if n = Directory \<and> map_of fs b' \<noteq> None
            then (Some (link_error False a b ''not a directory''), fs)
          else if n = Directory \<and> below a' b'
            then (Some (link_error False a b ''invalid argument''), fs)
          else (None,
                map (\<lambda>(q, m). (if q = a' then b'
                                else if below a' q then b' @ drop (length a') q else q, m))
                  (filter (\<lambda>(q, _). q \<noteq> b') fs)))"

definition mem_Lstat :: "path \<Rightarrow> memfs \<Rightarrow> (oserror + FileInfo) \<times> memfs" where
  "mem_Lstat p fs =
     (case lookup fs p of
        None \<Rightarrow> (Inl (missing ''lstat'' p fs), fs)
      | Some n \<Rightarrow> (Inr (FileInfo (Base p) (n = Directory)), fs))"

definition mem_readDirNames :: "path \<Rightarrow> memfs \<Rightarrow> (oserror + string list) \<times> memfs" where
  "mem_readDirNames p fs =
     (case lookup fs p of
        Some Directory \<Rightarrow>
          (Inr (sort [Base q. (q, _) \<leftarrow> fs, q \<noteq> Clean p \<and> Dir q = Clean p]), fs)
      | Some (File _) \<Rightarrow> (Inl (failure ''readdirent'' p ''not a directory''), fs)
      | None \<Rightarrow> (Inl (missing ''open'' p fs), fs))"

definition mem_os :: "memfs OS" where
  "mem_os = \<lparr> os_ReadFile = mem_ReadFile, os_WriteFile = mem_WriteFile, os_Stat = mem_Stat,
     os_MkdirAll = mem_MkdirAll, os_Rename = mem_Rename, os_Lstat = mem_Lstat,
     os_readDirNames = mem_readDirNames \<rparr>"

definition start :: "'w \<Rightarrow> 'w run" where
  "start w = \<lparr> world = w, calls = [], printed = [] \<rparr>"

text \<open>A small project: one Java file in the package directory, a build file, and a
  Java file inside \<^verbatim>\<open>.git\<close>.\<close>

definition project :: memfs where
  "project =
     [(''/'', Directory), (''/proj'', Directory), (''/proj/.git'', Directory),
      (''/proj/.git/X.java'', File ''package com.old;''),
      (''/proj/README'', File ''com.old''),
      (''/proj/pom.xml'', File ''<groupId>com.old</groupId>''),
      (''/proj/src'', Directory), (''/proj/src/com'', Directory),
      (''/proj/src/com/old'', Directory),
      (''/proj/src/com/old/Foo.java'', File ''package com.old.foo;'')]"

text \<open>A project whose root directory lies below a directory \<^verbatim>\<open>com/old\<close> itself.\<close>

definition nested_project :: memfs where
  "nested_project =
     [(''/'', Directory), (''/home'', Directory), (''/home/com'', Directory),
      (''/home/com/old'', Directory), (''/home/com/old/proj'', Directory),
      (''/home/com/old/proj/src'', Directory), (''/home/com/old/proj/src/com'', Directory),
      (''/home/com/old/proj/src/com/old'', Directory),
      (''/home/com/old/proj/src/com/old/Foo.java'', File ''package com.old;'')]"


text \<open>
  Calls that all succeeded; calls of which the last one, and only it, failed with the
  message \<open>m\<close>; and what a returned error says about the calls made: an error with a
  message is the failure of the last call, no error or \<^verbatim>\<open>SkipDir\<close> means that every
  call succeeded.
\<close>

definition clean :: "event list \<Rightarrow> bool" where
  "clean es = (\<forall>e \<in> set es. error_of e = None)"

definition aborted :: "event list \<Rightarrow> string \<Rightarrow> bool" where
  "aborted es m = (es \<noteq> [] \<and> clean (butlast es) \<and> error_of (last es) = Some m)"

definition settled :: "error option \<Rightarrow> event list \<Rightarrow> bool" where
  "settled res es =
     (case res of Some (Err m) \<Rightarrow> aborted es m | Some NilDeref \<Rightarrow> False | _ \<Rightarrow> clean es)"

definition walked :: "error option option \<Rightarrow> event list \<Rightarrow> bool" where
  "walked res es = (case res of None \<Rightarrow> clean es | Some e \<Rightarrow> settled e es)"

text \<open>The project with a directory in the place where \<^verbatim>\<open>Foo.java\<close> is to go, and a
  second Java file after \<^verbatim>\<open>Foo.java\<close>.\<close>

definition blocked_project :: memfs where
  "blocked_project =
     [(''/'', Directory), (''/proj'', Directory),
      (''/proj/pom.xml'', File ''<groupId>com.old</groupId>''),
      (''/proj/src'', Directory), (''/proj/src/com'', Directory),
      (''/proj/src/com/new'', Directory), (''/proj/src/com/new/Foo.java'', Directory),
      (''/proj/src/com/old'', Directory),
      (''/proj/src/com/old/Foo.java'', File ''package com.old.foo;''),
      (''/proj/src/com/old/Zed.java'', File ''package com.old.foo;'')]"

text \<open>
  A stretch of a run, from \<open>r\<close> to \<open>r'\<close> with the result \<open>res\<close>: the calls of \<open>r'\<close>
  are those of \<open>r\<close> followed by the calls made since, and the result says how these
  went.
\<close>

definition good :: "'w run \<Rightarrow> error option option \<Rightarrow> 'w run \<Rightarrow> bool" where
  "good r res r' = (calls r' = calls r @ since r r' \<and> walked res (since r r'))"

section \<open>Properties of the library functions\<close>

text \<open>\<^verbatim>\<open>strings.Contains\<close> is the existence of an occurrence.\<close>

lemma Contains_Nil [simp]: "Contains s []"
  by (cases s) simp_all

lemma Contains_iff: "Contains s x \<longleftrightarrow> (\<exists>u v. s = u @ x @ v)"
proof (induction s)
  case Nil
  then show ?case by auto
next
  case (Cons c cs)
  show ?case
  proof
    assume "Contains (c # cs) x"
    then consider "prefix x (c # cs)" | "Contains cs x" by auto
    then show "\<exists>u v. c # cs = u @ x @ v"
    proof cases
      case 1
      then obtain v where "c # cs = x @ v" by (auto simp: prefix_def)
      then have "c # cs = [] @ x @ v" by simp
      then show ?thesis by blast
    next
      case 2
      with Cons.IH obtain u v where "cs = u @ x @ v" by blast
      then have "c # cs = (c # u) @ x @ v" by simp
      then show ?thesis by blast
    qed
  next
    assume "\<exists>u v. c # cs = u @ x @ v"
    then obtain u v where uv: "c # cs = u @ x @ v" by blast
    show "Contains (c # cs) x"
    proof (cases u)
      case Nil
      with uv have "prefix x (c # cs)" by (simp add: prefix_def)
      then show ?thesis by simp
    next
      case (Cons a u')
      with uv have "cs = u' @ x @ v" by simp
      with Cons.IH have "Contains cs x" by blast
      then show ?thesis by simp
    qed
  qed
qed

lemma replaceN_absent: "\<not> Contains s old \<Longrightarrow> replaceN k s old new = s"
  by (induction k s old new rule: replaceN.induct) auto

lemma Replace_absent: "\<not> Contains s old \<Longrightarrow> Replace s old new n = s"
  by (auto simp: Replace_def Let_def replaceN_absent)

lemma Replace_same [simp]: "Replace s x x n = s"
  by (simp add: Replace_def)

lemma ReplaceAll_same [simp]: "ReplaceAll s x x = s"
  by (simp add: ReplaceAll_def)

lemma ReplaceAll_absent: "\<not> Contains s old \<Longrightarrow> ReplaceAll s old new = s"
  by (simp add: ReplaceAll_def Replace_absent)

lemma prefix_first_occurrence:
  assumes "prefix old (u @ old @ v)" and "u \<noteq> []"
  shows "Contains (u @ butlast old) old"
proof -
  from assms(2) have len: "length old \<le> length (u @ butlast old)"
    by (cases u) auto
  from assms(1) obtain w where w: "u @ old @ v = old @ w" by (auto simp: prefix_def)
  have "take (length old) (u @ old @ v) = old" using w by simp
  moreover have "take (length old) (u @ old @ v) = take (length old) (u @ butlast old)"
    using len by (cases old rule: rev_cases) (auto simp: butlast_append)
  ultimately have "prefix old (u @ butlast old)"
    by (metis take_is_prefix)
  then obtain w where "u @ butlast old = [] @ old @ w" by (auto simp: prefix_def)
  then show ?thesis unfolding Contains_iff by blast
qed

lemma replaceN_first:
  assumes "\<not> Contains (u @ butlast old) old"
  shows "replaceN (Suc k) (u @ old @ v) old new = u @ new @ replaceN k v old new"
  using assms
proof (induction u)
  case Nil
  then have "old \<noteq> []" by auto
  then obtain c cs where eq: "old @ v = c # cs" by (cases old) auto
  have p: "prefix old (c # cs)" using eq by (metis prefixI)
  have d: "drop (length old) (c # cs) = v" using eq by (metis append_eq_conv_conj)
  have "replaceN (Suc k) (c # cs) old new = new @ replaceN k v old new"
    using p d by simp
  then show ?case using eq by simp
next
  case (Cons a u)
  have "\<not> prefix old ((a # u) @ old @ v)"
    using Cons.prems prefix_first_occurrence by blast
  moreover have "\<not> Contains (u @ butlast old) old"
    using Cons.prems by simp
  ultimately show ?case using Cons.IH by simp
qed

lemma first_occurrence:
  assumes "Contains s old" and "old \<noteq> []"
  shows "\<exists>u v. s = u @ old @ v \<and> \<not> Contains (u @ butlast old) old"
  using assms
proof (induction s)
  case Nil
  then show ?case by simp
next
  case (Cons c cs)
  show ?case
  proof (cases "prefix old (c # cs)")
    case True
    then obtain v where "c # cs = [] @ old @ v" by (auto simp: prefix_def)
    moreover have "\<not> Contains ([] @ butlast old) old"
    proof
      assume "Contains ([] @ butlast old) old"
      then obtain u w where "butlast old = u @ old @ w" using Contains_iff by auto
      then have "length (butlast old) = length (u @ old @ w)" by simp
      then have "length old - 1 = length u + length old + length w" by simp
      moreover have "1 \<le> length old" using \<open>old \<noteq> []\<close> by (simp add: Suc_leI)
      ultimately show False by linarith
    qed
    ultimately show ?thesis by blast
  next
    case False
    with Cons.prems have "Contains cs old" by simp
    with Cons.IH \<open>old \<noteq> []\<close> obtain u v where uv: "cs = u @ old @ v" "\<not> Contains (u @ butlast old) old"
      by blast
    have "\<not> Contains ((c # u) @ butlast old) old"
    proof
      assume "Contains ((c # u) @ butlast old) old"
      with uv(2) have "prefix old (c # u @ butlast old)" by simp
      moreover have "prefix (c # u @ butlast old) (c # cs)"
        unfolding uv(1) by (simp add: prefix_prefix prefixeq_butlast)
      ultimately have "prefix old (c # cs)" by (rule prefix_order.trans)
      with False show False by simp
    qed
    with uv(1) show ?thesis by (metis Cons_eq_appendI)
  qed
qed

lemma Replace_first_in_prefix:
  assumes "Contains root old"
  shows "Replace (root @ rest) old new 1 = Replace root old new 1 @ rest"
proof (cases "old = new \<or> old = []")
  case True
  then show ?thesis by (auto simp: Replace_def)
next
  case False
  with assms obtain u v where uv: "root = u @ old @ v" "\<not> Contains (u @ butlast old) old"
    using first_occurrence by blast
  have "replaceN (Suc 0) (u @ old @ (v @ rest)) old new = u @ new @ v @ rest"
    using replaceN_first [OF uv(2)] by simp
  moreover have "replaceN (Suc 0) (u @ old @ v) old new = u @ new @ v"
    using replaceN_first [OF uv(2)] by simp
  ultimately show ?thesis using False uv(1) by (simp add: Replace_def)
qed

lemma replaceN_enough:
  assumes "old \<noteq> []" and "length s < k" and "length s < k'"
  shows "replaceN k s old new = replaceN k' s old new"
  using assms
proof (induction k s old new arbitrary: k' rule: replaceN.induct)
  case (1 s old new)
  then show ?case by simp
next
  case (2 k old new)
  then show ?case by (cases k') simp_all
next
  case (3 k c cs old new)
  from "3.prems" obtain j where j: "k' = Suc j" by (cases k') auto
  show ?case
  proof (cases "prefix old (c # cs)")
    case True
    have "length (drop (length old) (c # cs)) \<le> length cs"
      using "3.prems"(1) by (cases old) auto
    then have "length (drop (length old) (c # cs)) < k" "length (drop (length old) (c # cs)) < j"
      using "3.prems" j by auto
    then have "replaceN k (drop (length old) (c # cs)) old new = replaceN j (drop (length old) (c # cs)) old new"
      using "3.IH"(1) True "3.prems"(1) by blast
    then show ?thesis using True j by simp
  next
    case False
    have "length cs < Suc k" "length cs < Suc j"
      using "3.prems" j by auto
    then have "replaceN (Suc k) cs old new = replaceN (Suc j) cs old new"
      by (rule "3.IH"(2) [OF False "3.prems"(1)])
    then show ?thesis using False j by simp
  qed
qed

lemma ReplaceAll_absent_iff_first:
  assumes "old \<noteq> new" and "\<not> Contains (u @ butlast old) old"
  shows "ReplaceAll (u @ old @ v) old new = u @ new @ ReplaceAll v old new"
proof -
  from assms(2) have ne: "old \<noteq> []" by auto
  have "replaceN (Suc (length (u @ old @ v))) (u @ old @ v) old new
          = u @ new @ replaceN (length (u @ old @ v)) v old new"
    by (rule replaceN_first [OF assms(2)])
  moreover have "replaceN (length (u @ old @ v)) v old new = replaceN (Suc (length v)) v old new"
    using ne by (intro replaceN_enough) (auto simp: Suc_le_eq)
  ultimately show ?thesis using assms(1) ne by (simp add: ReplaceAll_def Replace_def)
qed

lemma javaContent_same [simp]: "javaContent name name c = c"
  by (simp add: javaContent_def)

lemma split_from_nonempty [simp]: "split_from sep acc s \<noteq> []"
  by (induction sep acc s rule: split_from.induct) auto

lemma Split_nonempty [simp]: "sep \<noteq> [] \<Longrightarrow> Split s sep \<noteq> []"
  by (simp add: Split_def)

lemma buildContent_same [simp]: "buildContent name name c = c"
  by (simp add: buildContent_def Let_def)

section \<open>Properties of the processors\<close>

lemmas call_defs = call_ReadFile_def call_WriteFile_def call_Stat_def call_MkdirAll_def
  call_Rename_def call_Lstat_def call_readDirNames_def

lemma since_append [simp]: "calls r' = calls r @ es \<Longrightarrow> since r r' = es"
  by (simp add: since_def)

lemma since_self [simp]: "since r r = []"
  by (simp add: since_def)

lemma writes_simps [simp]:
  "writes [] = []"
  "writes (ReadFile p rd # es) = writes es"
  "writes (WriteFile p c x # es) = (p, c) # writes es"
  "writes (Stat p y # es) = writes es"
  "writes (MkdirAll p y # es) = writes es"
  "writes (Rename p q y # es) = writes es"
  "writes (Lstat p z # es) = writes es"
  "writes (ReadDirNames p n # es) = writes es"
  "writes (es @ es') = writes es @ writes es'"
  by (simp_all add: writes_def)

lemma renames_simps [simp]:
  "renames [] = []"
  "renames (ReadFile p rd # es) = renames es"
  "renames (WriteFile p c x # es) = renames es"
  "renames (Stat p y # es) = renames es"
  "renames (MkdirAll p y # es) = renames es"
  "renames (Rename p q y # es) = (p, q) # renames es"
  "renames (Lstat p z # es) = renames es"
  "renames (ReadDirNames p n # es) = renames es"
  "renames (es @ es') = renames es @ renames es'"
  by (simp_all add: renames_def)

lemma mkdirs_simps [simp]:
  "mkdirs [] = []"
  "mkdirs (ReadFile p rd # es) = mkdirs es"
  "mkdirs (WriteFile p c x # es) = mkdirs es"
  "mkdirs (Stat p y # es) = mkdirs es"
  "mkdirs (MkdirAll p y # es) = p # mkdirs es"
  "mkdirs (Rename p q y # es) = mkdirs es"
  "mkdirs (Lstat p z # es) = mkdirs es"
  "mkdirs (ReadDirNames p n # es) = mkdirs es"
  "mkdirs (es @ es') = mkdirs es @ mkdirs es'"
  by (simp_all add: mkdirs_def)

lemma notexist_simps [simp]: "notexist None = False" "notexist (Some e) = IsNotExist e"
  by (simp_all add: notexist_def)

lemma Printf_simps [simp]:
  "calls (Printf l r) = calls r" "world (Printf l r) = world r"
  "printed (Printf l r) = printed r @ [Line l]"
  by (simp_all add: Printf_def)

lemma call_ReadFile_step:
  assumes "call_ReadFile os p r = (x, r')"
  shows "calls r' = calls r @ [ReadFile p x]" and "x = fst (os_ReadFile os p (world r))"
  using assms by (auto simp: call_ReadFile_def split: prod.splits)

lemma call_WriteFile_step:
  assumes "call_WriteFile os p c r = (x, r')"
  shows "calls r' = calls r @ [WriteFile p c x]"
  using assms by (auto simp: call_WriteFile_def split: prod.splits)

lemma call_Stat_step:
  assumes "call_Stat os p r = (x, r')"
  shows "calls r' = calls r @ [Stat p x]"
  using assms by (auto simp: call_Stat_def split: prod.splits)

lemma call_MkdirAll_step:
  assumes "call_MkdirAll os p r = (x, r')"
  shows "calls r' = calls r @ [MkdirAll p x]"
  using assms by (auto simp: call_MkdirAll_def split: prod.splits)

lemma call_Rename_step:
  assumes "call_Rename os p q r = (x, r')"
  shows "calls r' = calls r @ [Rename p q x]"
  using assms by (auto simp: call_Rename_def split: prod.splits)

lemma call_Lstat_step:
  assumes "call_Lstat os p r = (x, r')"
  shows "calls r' = calls r @ [Lstat p x]"
  using assms by (auto simp: call_Lstat_def split: prod.splits)

lemma call_readDirNames_step:
  assumes "call_readDirNames os p r = (x, r')"
  shows "calls r' = calls r @ [ReadDirNames p x]"
  using assms by (auto simp: call_readDirNames_def split: prod.splits)

lemma writeIfModified_cases:
  assumes "writeIfModified os p c m r = (res, r')"
  obtains (same) "m = c" "res = None" "r' = r"
  | (written) "m \<noteq> c" "res = None" "calls r' = calls r @ [WriteFile p m None]"
  | (failed) e where "m \<noteq> c" "calls r' = calls r @ [WriteFile p m (Some e)]"
      "res = Some (Err (''failed to write file '' @ p @ '': '' @ Error e))"
  using assms
  by (auto simp: writeIfModified_def dest: call_WriteFile_step split: if_splits prod.splits option.splits)

lemma ensureDir_cases:
  assumes "ensureDir os d r = (res, r')"
  obtains (present) st where "\<not> notexist st" "res = None" "calls r' = calls r @ [Stat d st]"
  | (made) e where "IsNotExist e" "res = None"
      "calls r' = calls r @ [Stat d (Some e), MkdirAll d None]"
  | (failed) e m where "IsNotExist e"
      "calls r' = calls r @ [Stat d (Some e), MkdirAll d (Some m)]"
      "res = Some (Err (''failed to create directory '' @ d @ '': '' @ Error m))"
proof -
  obtain st r1 where st: "call_Stat os d r = (st, r1)" by (cases "call_Stat os d r")
  from call_Stat_step [OF st] have c1: "calls r1 = calls r @ [Stat d st]" .
  show ?thesis
  proof (cases "notexist st")
    case False
    with st assms have "res = None" "r' = r1"
      by (auto simp: ensureDir_def split: option.splits)
    with False c1 show ?thesis using present by simp
  next
    case True
    then obtain e where e: "st = Some e" "IsNotExist e" by (cases st) auto
    obtain x r2 where x: "call_MkdirAll os d r1 = (x, r2)" by (cases "call_MkdirAll os d r1")
    from call_MkdirAll_step [OF x] c1 e
    have c2: "calls r2 = calls r @ [Stat d (Some e), MkdirAll d x]" by simp
    show ?thesis
    proof (cases x)
      case None
      with st e x assms have "res = None" "r' = r2" by (auto simp: ensureDir_def)
      with None c2 e show ?thesis using made by simp
    next
      case (Some m)
      with st e x assms have
        "res = Some (Err (''failed to create directory '' @ d @ '': '' @ Error m))" "r' = r2"
        by (auto simp: ensureDir_def)
      with Some c2 e show ?thesis using failed by simp
    qed
  qed
qed

lemma renameFile_cases:
  assumes "renameFile os p old new r = (res, r')"
  obtains (stay) "\<not> Contains p old \<or> Replace p old new 1 = p" "res = None" "r' = r"
  | (mkdir_failed) e m where "Contains p old" "Replace p old new 1 \<noteq> p" "IsNotExist e"
      "calls r' = calls r @ [Stat (Dir (Replace p old new 1)) (Some e),
                            MkdirAll (Dir (Replace p old new 1)) (Some m)]"
      "res = Some (Err (''failed to create directory '' @ Dir (Replace p old new 1) @ '': '' @ Error m))"
  | (renamed) st y where "Contains p old" "Replace p old new 1 \<noteq> p"
      "calls r' = calls r @ Stat (Dir (Replace p old new 1)) st
                 # (if notexist st then [MkdirAll (Dir (Replace p old new 1)) None] else [])
                 @ [Rename p (Replace p old new 1) y]"
      "res = map_option (\<lambda>e. Err (''failed to rename file from '' @ p @ '' to ''
                                  @ Replace p old new 1 @ '': '' @ Error e)) y"
proof (cases "Contains p old \<and> Replace p old new 1 \<noteq> p")
  case False
  have "renameFile os p old new r = (None, r)"
  proof (cases "Contains p old")
    case True
    with False have "Replace p old new 1 = p" by simp
    then show ?thesis by (simp add: renameFile_def)
  next
    case False
    then show ?thesis by (simp add: renameFile_def)
  qed
  with assms have "res = None" "r' = r" by simp_all
  with False show ?thesis using stay by blast
next
  case True
  let ?q = "Replace p old new 1"
  obtain e1 r1 where e1: "ensureDir os (Dir ?q) r = (e1, r1)" by (cases "ensureDir os (Dir ?q) r")
  show ?thesis
  proof (cases e1)
    case (Some err)
    with e1 True assms have res: "res = Some err" "r' = r1"
      by (auto simp: renameFile_def Let_def)
    from e1 Some show ?thesis
      by (cases rule: ensureDir_cases) (use True res mkdir_failed in auto)
  next
    case None
    obtain y r2 where y: "call_Rename os p ?q r1 = (y, r2)" by (cases "call_Rename os p ?q r1")
    with e1 None True assms have res:
      "res = map_option (\<lambda>e. Err (''failed to rename file from '' @ p @ '' to '' @ ?q @ '': '' @ Error e)) y"
      "calls r' = calls r2"
      by (auto simp: renameFile_def Let_def split: option.splits)
    from call_Rename_step [OF y] have c2: "calls r2 = calls r1 @ [Rename p ?q y]" .
    from e1 None show ?thesis
    proof (cases rule: ensureDir_cases)
      case (present st)
      then show ?thesis using renamed [of st y] True res c2 by simp
    next
      case (made e)
      then show ?thesis using renamed [of "Some e" y] True res c2 by simp
    next
      case (failed e m)
      then show ?thesis using None by simp
    qed
  qed
qed

lemma processJavaFile_cases:
  assumes "processJavaFile os p oldName newName r = (res, r')"
  obtains (read_failed) e where "fst (os_ReadFile os p (world r)) = Inl e"
      "calls r' = calls r @ [ReadFile p (Inl e)]"
      "res = Some (Err (''failed to read file '' @ p @ '': '' @ Error e))"
  | (write_failed) c r1 where "fst (os_ReadFile os p (world r)) = Inr c"
      "calls r1 = calls r @ [ReadFile p (Inr c)]"
      "writeIfModified os p c (javaContent oldName newName c) r1 = (res, r')" "res \<noteq> None"
  | (moved) c r1 r2 where "fst (os_ReadFile os p (world r)) = Inr c"
      "calls r1 = calls r @ [ReadFile p (Inr c)]"
      "writeIfModified os p c (javaContent oldName newName c) r1 = (None, r2)"
      "renameFile os p (ReplaceAll oldName ''.'' [Separator]) (ReplaceAll newName ''.'' [Separator]) r2
         = (res, r')"
proof -
  let ?r0 = "Printf (''Processing Java file: '' @ p) r"
  obtain x r1 where x: "call_ReadFile os p ?r0 = (x, r1)" by (cases "call_ReadFile os p ?r0")
  from call_ReadFile_step [OF x]
  have c1: "calls r1 = calls r @ [ReadFile p x]" and fx: "x = fst (os_ReadFile os p (world r))"
    by simp_all
  show ?thesis
  proof (cases x)
    case (Inl e)
    with x assms have "res = Some (Err (''failed to read file '' @ p @ '': '' @ Error e))" "r' = r1"
      by (auto simp: processJavaFile_def)
    with Inl c1 fx show ?thesis using read_failed by simp
  next
    case (Inr c)
    obtain e2 r2 where w: "writeIfModified os p c (javaContent oldName newName c) r1 = (e2, r2)"
      by (cases "writeIfModified os p c (javaContent oldName newName c) r1")
    show ?thesis
    proof (cases e2)
      case None
      with x Inr w assms have
        "renameFile os p (ReplaceAll oldName ''.'' [Separator]) (ReplaceAll newName ''.'' [Separator]) r2
           = (res, r')"
        by (simp add: processJavaFile_def Let_def)
      with Inr c1 fx w None show ?thesis using moved by simp
    next
      case (Some err)
      with x Inr w assms have "res = e2" "r' = r2"
        by (simp_all add: processJavaFile_def Let_def)
      with Inr c1 fx w Some show ?thesis using write_failed by simp
    qed
  qed
qed

lemma processBuildFile_cases:
  assumes "processBuildFile os p oldName newName r = (res, r')"
  obtains (read_failed) e where "fst (os_ReadFile os p (world r)) = Inl e"
      "calls r' = calls r @ [ReadFile p (Inl e)]"
      "res = Some (Err (''failed to read file '' @ p @ '': '' @ Error e))"
  | (read) c r1 where "fst (os_ReadFile os p (world r)) = Inr c"
      "calls r1 = calls r @ [ReadFile p (Inr c)]"
      "writeIfModified os p c (buildContent oldName newName c) r1 = (res, r')"
proof -
  let ?r0 = "Printf (''Processing build file: '' @ p) r"
  obtain x r1 where x: "call_ReadFile os p ?r0 = (x, r1)" by (cases "call_ReadFile os p ?r0")
  from call_ReadFile_step [OF x]
  have c1: "calls r1 = calls r @ [ReadFile p x]" and fx: "x = fst (os_ReadFile os p (world r))"
    by simp_all
  show ?thesis
  proof (cases x)
    case (Inl e)
    with x assms have "res = Some (Err (''failed to read file '' @ p @ '': '' @ Error e))" "r' = r1"
      by (auto simp: processBuildFile_def)
    with Inl c1 fx show ?thesis using read_failed by simp
  next
    case (Inr c)
    with x assms have "writeIfModified os p c (buildContent oldName newName c) r1 = (res, r')"
      by (simp add: processBuildFile_def Let_def)
    with Inr c1 fx show ?thesis using read by simp
  qed
qed

lemma processJavaFile_outcomes:
  assumes "processJavaFile os p oldName newName r = (res, r')"
  obtains (read_failed) e where "fst (os_ReadFile os p (world r)) = Inl e"
      "since r r' = [ReadFile p (Inl e)]"
      "res = Some (Err (''failed to read file '' @ p @ '': '' @ Error e))"
  | (write_failed) c e where "fst (os_ReadFile os p (world r)) = Inr c" "javaContent oldName newName c \<noteq> c"
      "since r r' = [ReadFile p (Inr c), WriteFile p (javaContent oldName newName c) (Some e)]"
      "res = Some (Err (''failed to write file '' @ p @ '': '' @ Error e))"
  | (stay) c where "fst (os_ReadFile os p (world r)) = Inr c"
      "\<not> Contains p (ReplaceAll oldName ''.'' [Separator]) \<or> Replace p (ReplaceAll oldName ''.'' [Separator]) (ReplaceAll newName ''.'' [Separator]) 1 = p"
      "since r r' = ReadFile p (Inr c) # (if javaContent oldName newName c \<noteq> c then [WriteFile p (javaContent oldName newName c) None] else [])"
      "res = None"
  | (mkdir_failed) c e e' where "fst (os_ReadFile os p (world r)) = Inr c"
      "Contains p (ReplaceAll oldName ''.'' [Separator])" "Replace p (ReplaceAll oldName ''.'' [Separator]) (ReplaceAll newName ''.'' [Separator]) 1 \<noteq> p" "IsNotExist e"
      "since r r' = ReadFile p (Inr c) # (if javaContent oldName newName c \<noteq> c then [WriteFile p (javaContent oldName newName c) None] else [])
                     @ [Stat (Dir (Replace p (ReplaceAll oldName ''.'' [Separator]) (ReplaceAll newName ''.'' [Separator]) 1)) (Some e), MkdirAll (Dir (Replace p (ReplaceAll oldName ''.'' [Separator]) (ReplaceAll newName ''.'' [Separator]) 1)) (Some e')]"
      "res = Some (Err (''failed to create directory '' @ Dir (Replace p (ReplaceAll oldName ''.'' [Separator]) (ReplaceAll newName ''.'' [Separator]) 1) @ '': '' @ Error e'))"
  | (renamed) c st y where "fst (os_ReadFile os p (world r)) = Inr c"
      "Contains p (ReplaceAll oldName ''.'' [Separator])" "Replace p (ReplaceAll oldName ''.'' [Separator]) (ReplaceAll newName ''.'' [Separator]) 1 \<noteq> p"
      "since r r' = ReadFile p (Inr c) # (if javaContent oldName newName c \<noteq> c then [WriteFile p (javaContent oldName newName c) None] else [])
                     @ Stat (Dir (Replace p (ReplaceAll oldName ''.'' [Separator]) (ReplaceAll newName ''.'' [Separator]) 1)) st # (if notexist st then [MkdirAll (Dir (Replace p (ReplaceAll oldName ''.'' [Separator]) (ReplaceAll newName ''.'' [Separator]) 1)) None] else [])
                     @ [Rename p (Replace p (ReplaceAll oldName ''.'' [Separator]) (ReplaceAll newName ''.'' [Separator]) 1) y]"
      "res = map_option (\<lambda>e. Err (''failed to rename file from '' @ p @ '' to '' @ Replace p (ReplaceAll oldName ''.'' [Separator]) (ReplaceAll newName ''.'' [Separator]) 1
                                  @ '': '' @ Error e)) y"
  using assms(1)
proof (cases rule: processJavaFile_cases)
  case (read_failed e)
  then show ?thesis using that(1) by simp
next
  case (write_failed c r1)
  from write_failed(3) show ?thesis
    by (cases rule: writeIfModified_cases) (use write_failed that(2) in auto)
next
  case (moved c r1 r2)
  from moved(3) have c2: "calls r2 = calls r @ ReadFile p (Inr c) # (if javaContent oldName newName c \<noteq> c then [WriteFile p (javaContent oldName newName c) None] else [])"
    by (cases rule: writeIfModified_cases) (use moved(2) in auto)
  from moved(4) show ?thesis
  proof (cases rule: renameFile_cases)
    case stay
    then show ?thesis using that(3) [of c] moved(1) c2 by simp
  next
    case (mkdir_failed e e')
    then show ?thesis using that(4) [of c e e'] moved(1) c2 by simp
  next
    case (renamed st y)
    then show ?thesis using that(5) [of c st y] moved(1) c2 by simp
  qed
qed

lemma processBuildFile_outcomes:
  assumes "processBuildFile os p oldName newName r = (res, r')"
  obtains (read_failed) e where "fst (os_ReadFile os p (world r)) = Inl e"
      "since r r' = [ReadFile p (Inl e)]"
      "res = Some (Err (''failed to read file '' @ p @ '': '' @ Error e))"
  | (write_failed) c e where "fst (os_ReadFile os p (world r)) = Inr c" "buildContent oldName newName c \<noteq> c"
      "since r r' = [ReadFile p (Inr c), WriteFile p (buildContent oldName newName c) (Some e)]"
      "res = Some (Err (''failed to write file '' @ p @ '': '' @ Error e))"
  | (finished) c where "fst (os_ReadFile os p (world r)) = Inr c"
      "since r r' = ReadFile p (Inr c) # (if buildContent oldName newName c \<noteq> c then [WriteFile p (buildContent oldName newName c) None] else [])"
      "res = None"
  using assms(1)
proof (cases rule: processBuildFile_cases)
  case (read_failed e)
  then show ?thesis using that(1) by simp
next
  case (read c r1)
  from read(3) show ?thesis
    by (cases rule: writeIfModified_cases) (use read that(2) [of c] that(3) [of c] in auto)
qed

text \<open>Facts about a run of a processor, read off its outcomes.\<close>

lemma java_writes:
  assumes "processJavaFile os p oldName newName r = (res, r')"
      and "os_ReadFile os p (world r) = (Inr c, w)"
  shows "writes (since r r') =
           (if javaContent oldName newName c \<noteq> c then [(p, javaContent oldName newName c)] else [])"
  using assms(1) by (cases rule: processJavaFile_outcomes) (use assms(2) in auto)

lemma java_read_failed:
  assumes "processJavaFile os p oldName newName r = (res, r')"
      and "os_ReadFile os p (world r) = (Inl e, w)"
  shows "since r r' = [ReadFile p (Inl e)] \<and>
         res = Some (Err (''failed to read file '' @ p @ '': '' @ Error e))"
  using assms(1) by (cases rule: processJavaFile_outcomes) (use assms(2) in auto)

lemma java_renames:
  assumes "processJavaFile os p oldName newName r = (None, r')"
  shows "renames (since r r') =
           (if Contains p (ReplaceAll oldName ''.'' [Separator]) \<and>
               Replace p (ReplaceAll oldName ''.'' [Separator]) (ReplaceAll newName ''.'' [Separator]) 1 \<noteq> p
            then [(p, Replace p (ReplaceAll oldName ''.'' [Separator]) (ReplaceAll newName ''.'' [Separator]) 1)]
            else [])"
  using assms by (cases rule: processJavaFile_outcomes) auto

lemma java_no_move:
  assumes "processJavaFile os p oldName newName r = (res, r')"
      and "\<not> Contains p (ReplaceAll oldName ''.'' [Separator]) \<or>
           Replace p (ReplaceAll oldName ''.'' [Separator]) (ReplaceAll newName ''.'' [Separator]) 1 = p"
  shows "renames (since r r') = [] \<and> mkdirs (since r r') = []"
  using assms(1) by (cases rule: processJavaFile_outcomes) (use assms(2) in auto)

lemma java_move_last:
  assumes "processJavaFile os p oldName newName r = (None, r')"
      and "Contains p (ReplaceAll oldName ''.'' [Separator])"
      and "Replace p (ReplaceAll oldName ''.'' [Separator]) (ReplaceAll newName ''.'' [Separator]) 1 \<noteq> p"
  shows "last (since r r') =
           Rename p (Replace p (ReplaceAll oldName ''.'' [Separator]) (ReplaceAll newName ''.'' [Separator]) 1) None"
  using assms(1) by (cases rule: processJavaFile_outcomes) (use assms(2,3) in auto)

lemma java_mkdirs:
  assumes "processJavaFile os p oldName newName r = (None, r')"
      and "Contains p (ReplaceAll oldName ''.'' [Separator])"
      and "Replace p (ReplaceAll oldName ''.'' [Separator]) (ReplaceAll newName ''.'' [Separator]) 1 = q"
      and "q \<noteq> p"
  shows "\<exists>st. Stat (Dir q) st \<in> set (since r r') \<and>
           mkdirs (since r r') = (if notexist st then [Dir q] else [])"
  using assms(1) by (cases rule: processJavaFile_outcomes) (use assms(2,3,4) in auto)

lemma java_calls_same:
  "since r (snd (processJavaFile os p name name r)) = [ReadFile p (fst (os_ReadFile os p (world r)))]"
proof -
  obtain res r' where run: "processJavaFile os p name name r = (res, r')"
    by (cases "processJavaFile os p name name r")
  from run have "since r r' = [ReadFile p (fst (os_ReadFile os p (world r)))]"
    by (cases rule: processJavaFile_outcomes) auto
  with run show ?thesis by simp
qed

lemma build_calls_same:
  "since r (snd (processBuildFile os p name name r)) = [ReadFile p (fst (os_ReadFile os p (world r)))]"
proof -
  obtain res r' where run: "processBuildFile os p name name r = (res, r')"
    by (cases "processBuildFile os p name name r")
  from run have "since r r' = [ReadFile p (fst (os_ReadFile os p (world r)))]"
    by (cases rule: processBuildFile_outcomes) auto
  with run show ?thesis by simp
qed

lemma build_writes:
  assumes "processBuildFile os p oldName newName r = (res, r')"
      and "os_ReadFile os p (world r) = (Inr c, w)"
  shows "writes (since r r') =
           (if buildContent oldName newName c \<noteq> c then [(p, buildContent oldName newName c)] else [])"
  using assms(1) by (cases rule: processBuildFile_outcomes) (use assms(2) in auto)

lemma build_unchanged:
  assumes "processBuildFile os p oldName newName r = (res, r')"
      and "os_ReadFile os p (world r) = (Inr c, w)"
      and "buildContent oldName newName c = c"
  shows "since r r' = [ReadFile p (Inr c)] \<and> res = None"
  using assms(1) by (cases rule: processBuildFile_outcomes) (use assms(2,3) in auto)

lemma java_unchanged:
  assumes "processJavaFile os p oldName newName r = (res, r')"
      and "os_ReadFile os p (world r) = (Inr c, w)"
      and "javaContent oldName newName c = c"
  shows "writes (since r r') = [] \<and> hd (since r r') = ReadFile p (Inr c)"
  using assms(1) by (cases rule: processJavaFile_outcomes) (use assms(2,3) in auto)

lemma Replace_first:
  assumes "old \<noteq> new" and "\<not> Contains (u @ butlast old) old"
  shows "Replace (u @ old @ v) old new 1 = u @ new @ v"
proof -
  from assms(2) have "old \<noteq> []" by auto
  moreover have "replaceN (Suc 0) (u @ old @ v) old new = u @ new @ v"
    using replaceN_first [OF assms(2)] by simp
  ultimately show ?thesis using assms(1) by (simp add: Replace_def)
qed

text \<open>Splitting a dotted name at its dots: the last part and the parts before it.\<close>

lemma split_dot:
  "split_from ''.'' acc (c # cs) =
     (if c = CHR ''.'' then rev acc # split_from ''.'' [] cs else split_from ''.'' (c # acc) cs)"
  by simp

lemma Join_Cons: "es \<noteq> [] \<Longrightarrow> Join (e # es) sep = e @ sep @ Join es sep"
  by (cases es) simp_all

lemma last_split_dot:
  "CHR ''.'' \<notin> set acc \<Longrightarrow> last (split_from ''.'' acc s) = trailing_segment (rev acc @ s)"
proof (induction s arbitrary: acc)
  case Nil
  then have tw: "takeWhile (\<lambda>c. c \<noteq> CHR ''.'') acc = acc" by (auto simp: takeWhile_eq_all_conv)
  show ?case by (simp add: trailing_segment_def tw)
next
  case (Cons c cs)
  show ?case
  proof (cases "c = CHR ''.''")
    case True
    have "last (split_from ''.'' acc (c # cs)) = last (split_from ''.'' [] cs)"
      using True by (simp del: split_from.simps add: split_dot)
    also have "\<dots> = trailing_segment cs" using Cons.IH [of "[]"] by simp
    also have "\<dots> = trailing_segment (rev acc @ c # cs)"
      using True by (simp add: trailing_segment_def takeWhile_tail)
    finally show ?thesis .
  next
    case False
    then have "last (split_from ''.'' acc (c # cs)) = last (split_from ''.'' (c # acc) cs)"
      by (simp del: split_from.simps add: split_dot)
    also have "\<dots> = trailing_segment (rev (c # acc) @ cs)"
      using Cons.IH [of "c # acc"] Cons.prems False by simp
    finally show ?thesis by simp
  qed
qed

lemma butlast_split_dot_Nil:
  "(butlast (split_from ''.'' acc s) = []) = (CHR ''.'' \<notin> set s)"
proof (induction s arbitrary: acc)
  case Nil
  then show ?case by simp
next
  case (Cons c cs)
  show ?case
  proof (cases "c = CHR ''.''")
    case True
    then show ?thesis by (simp del: split_from.simps add: split_dot)
  next
    case False
    then show ?thesis using Cons.IH [of "c # acc"] by (simp del: split_from.simps add: split_dot)
  qed
qed

lemma group_split_dot:
  "CHR ''.'' \<notin> set acc \<Longrightarrow>
     Join (butlast (split_from ''.'' acc s)) ''.'' = dotted_prefix (rev acc @ s)"
proof (induction s arbitrary: acc)
  case Nil
  then have dw: "dropWhile (\<lambda>c. c \<noteq> CHR ''.'') acc = []" by (auto simp: dropWhile_eq_Nil_conv)
  show ?case by (simp add: dotted_prefix_def dw)
next
  case (Cons c cs)
  let ?P = "\<lambda>c. c \<noteq> CHR ''.''"
  show ?case
  proof (cases "c = CHR ''.''")
    case False
    then have "Join (butlast (split_from ''.'' acc (c # cs))) ''.''
                 = Join (butlast (split_from ''.'' (c # acc) cs)) ''.''"
      by (simp del: split_from.simps add: split_dot)
    also have "\<dots> = dotted_prefix (rev (c # acc) @ cs)"
      using Cons.IH [of "c # acc"] Cons.prems False by simp
    finally show ?thesis by simp
  next
    case True
    let ?rest = "split_from ''.'' [] cs"
    have sp: "butlast (split_from ''.'' acc (c # cs)) = rev acc # butlast ?rest"
      using True by (simp del: split_from.simps add: split_dot)
    have ih: "Join (butlast ?rest) ''.'' = dotted_prefix cs" using Cons.IH [of "[]"] by simp
    show ?thesis
    proof (cases "CHR ''.'' \<in> set cs")
      case False
      then have "butlast ?rest = []" by (simp add: butlast_split_dot_Nil)
      moreover have "dropWhile ?P (rev cs @ CHR ''.'' # acc) = CHR ''.'' # acc"
        using False by (subst dropWhile_append2) auto
      ultimately show ?thesis using sp True by (simp add: dotted_prefix_def)
    next
      case dot: True
      then have ne: "butlast ?rest \<noteq> []" by (simp add: butlast_split_dot_Nil)
      have d: "dropWhile ?P (rev cs @ CHR ''.'' # acc) = dropWhile ?P (rev cs) @ CHR ''.'' # acc"
        using dot by (intro dropWhile_append1 [of "CHR ''.''"]) auto
      have n: "dropWhile ?P (rev cs) \<noteq> []"
        using dot by (auto simp: dropWhile_eq_Nil_conv)
      have dr: "drop 1 (dropWhile ?P (rev cs) @ CHR ''.'' # acc)
                  = drop 1 (dropWhile ?P (rev cs)) @ CHR ''.'' # acc"
        using n by (cases "dropWhile ?P (rev cs)") auto
      have "dotted_prefix (rev acc @ c # cs) = rev acc @ ''.'' @ dotted_prefix cs"
        unfolding dotted_prefix_def using True by (simp only: rev_append rev.simps rev_rev_ident append.simps append_assoc d dr)
      then show ?thesis using sp ne ih by (simp add: Join_Cons)
    qed
  qed
qed

lemma artifact_is_trailing_segment:
  "Split name ''.'' ! (length (Split name ''.'') - 1) = trailing_segment name"
  using last_split_dot [of "[]" name] by (simp add: Split_def last_conv_nth)

lemma group_is_dotted_prefix:
  "Join (take (length (Split name ''.'') - 1) (Split name ''.'')) ''.'' = dotted_prefix name"
  using group_split_dot [of "[]" name] by (simp add: Split_def butlast_conv_take)

lemma buildContent_spec: "buildContent oldName newName c = spec_buildContent oldName newName c"
proof -
  have "0 < length (Split oldName ''.'')" "0 < length (Split newName ''.'')" by simp_all
  then show ?thesis
    unfolding buildContent_def spec_buildContent_def Let_def
      artifact_is_trailing_segment group_is_dotted_prefix
    by simp
qed

lemma dotted_name_parts:
  "name = (if CHR ''.'' \<in> set name then dotted_prefix name @ ''.'' @ trailing_segment name
           else trailing_segment name) \<and> CHR ''.'' \<notin> set (trailing_segment name)"
proof -
  let ?P = "\<lambda>c. c \<noteq> CHR ''.''"
  have t: "CHR ''.'' \<notin> set (trailing_segment name)"
    by (auto simp: trailing_segment_def dest: set_takeWhileD)
  have split: "rev name = takeWhile ?P (rev name) @ dropWhile ?P (rev name)" by simp
  show ?thesis
  proof (cases "CHR ''.'' \<in> set name")
    case False
    then have tw: "takeWhile ?P (rev name) = rev name" by (auto simp: takeWhile_eq_all_conv)
    show ?thesis using False t by (simp add: trailing_segment_def tw)
  next
    case True
    then have "dropWhile ?P (rev name) \<noteq> []" by (auto simp: dropWhile_eq_Nil_conv)
    then obtain x xs where x: "dropWhile ?P (rev name) = x # xs" by (cases "dropWhile ?P (rev name)") auto
    then have "x = CHR ''.''" using hd_dropWhile [of ?P "rev name"] by auto
    with x split have "rev name = takeWhile ?P (rev name) @ CHR ''.'' # xs" by simp
    then have "rev (rev name) = rev (takeWhile ?P (rev name) @ CHR ''.'' # xs)" by (rule arg_cong)
    then have "name = rev xs @ ''.'' @ rev (takeWhile ?P (rev name))" by simp
    moreover have "dotted_prefix name = rev xs" using x by (simp add: dotted_prefix_def)
    ultimately show ?thesis using True t by (simp add: trailing_segment_def)
  qed
qed



section \<open>Properties of the walk\<close>

text \<open>Errors and the calls that failed.\<close>

lemma clean_simps [simp]:
  "clean []" "clean (e # es) = (error_of e = None \<and> clean es)"
  "clean (es @ es') = (clean es \<and> clean es')"
  by (auto simp: clean_def)

lemma settled_append: "clean a \<Longrightarrow> settled res b \<Longrightarrow> settled res (a @ b)"
  by (auto simp: settled_def aborted_def butlast_append split: option.splits error.splits)

lemma walked_append: "clean a \<Longrightarrow> walked res b \<Longrightarrow> walked res (a @ b)"
  by (auto simp: walked_def settled_append split: option.splits)

lemma since_calls: "calls r' = calls r @ es \<Longrightarrow> calls r' = calls r @ since r r'"
  by (simp add: since_def)

lemma writeIfModified_mono:
  assumes "writeIfModified os p c m r = (res, r')"
  shows "\<exists>es. calls r' = calls r @ es"
  using assms by (cases rule: writeIfModified_cases) auto

lemma renameFile_mono:
  assumes "renameFile os p old new r = (res, r')"
  shows "\<exists>es. calls r' = calls r @ es"
  using assms by (cases rule: renameFile_cases) auto

lemma java_mono:
  assumes "processJavaFile os p oldName newName r = (res, r')"
  shows "calls r' = calls r @ since r r'"
proof -
  have "\<exists>es. calls r' = calls r @ es"
    using assms
  proof (cases rule: processJavaFile_cases)
    case (read_failed e)
    then show ?thesis by simp
  next
    case (write_failed c r1)
    then show ?thesis using writeIfModified_mono [OF write_failed(3)] by auto
  next
    case (moved c r1 r2)
    then show ?thesis
      using writeIfModified_mono [OF moved(3)] renameFile_mono [OF moved(4)] by auto
  qed
  then show ?thesis using since_calls by blast
qed

lemma build_mono:
  assumes "processBuildFile os p oldName newName r = (res, r')"
  shows "calls r' = calls r @ since r r'"
proof -
  have "\<exists>es. calls r' = calls r @ es"
    using assms
  proof (cases rule: processBuildFile_cases)
    case (read_failed e)
    then show ?thesis by simp
  next
    case (read c r1)
    then show ?thesis using writeIfModified_mono [OF read(3)] by auto
  qed
  then show ?thesis using since_calls by blast
qed

lemma java_settled:
  assumes "processJavaFile os p oldName newName r = (res, r')"
  shows "settled res (since r r')"
  using assms
  by (cases rule: processJavaFile_outcomes)
     (auto simp: settled_def aborted_def butlast_append split: option.splits)

lemma build_settled:
  assumes "processBuildFile os p oldName newName r = (res, r')"
  shows "settled res (since r r')"
  using assms
  by (cases rule: processBuildFile_outcomes)
     (auto simp: settled_def aborted_def butlast_append split: option.splits)

lemma visit_skip:
  assumes "IsDir info" and "Name info = ''.git'' \<or> Name info = ''target''"
  shows "visit os oldName newName path (Some info) None r = (Some SkipDir, r)"
  using assms unfolding visit_def by simp

lemma visit_java:
  assumes "\<not> IsDir info" and "HasSuffix (Name info) ''.java''"
  shows "visit os oldName newName path (Some info) None r = processJavaFile os path oldName newName r"
  using assms unfolding visit_def by simp

lemma visit_build:
  assumes "\<not> IsDir info" and "\<not> HasSuffix (Name info) ''.java''"
      and "Name info = ''pom.xml'' \<or> Name info = ''build.gradle''"
  shows "visit os oldName newName path (Some info) None r = processBuildFile os path oldName newName r"
  using assms unfolding visit_def by simp

lemma visit_other_dir:
  assumes "IsDir info" and "\<not> (Name info = ''.git'' \<or> Name info = ''target'')"
  shows "visit os oldName newName path (Some info) None r = (None, r)"
  using assms unfolding visit_def by simp

lemma visit_other_file:
  assumes "\<not> IsDir info" and "\<not> HasSuffix (Name info) ''.java''"
      and "\<not> (Name info = ''pom.xml'' \<or> Name info = ''build.gradle'')"
  shows "visit os oldName newName path (Some info) None r = (None, r)"
  using assms unfolding visit_def by simp

lemma visit_settled:
  assumes "visit os oldName newName path (Some info) None r = (res, r')"
  shows "calls r' = calls r @ since r r' \<and> settled res (since r r')"
proof -
  consider (skip) "IsDir info" "Name info = ''.git'' \<or> Name info = ''target''"
    | (dir) "IsDir info" "\<not> (Name info = ''.git'' \<or> Name info = ''target'')"
    | (java) "\<not> IsDir info" "HasSuffix (Name info) ''.java''"
    | (build) "\<not> IsDir info" "\<not> HasSuffix (Name info) ''.java''"
        "Name info = ''pom.xml'' \<or> Name info = ''build.gradle''"
    | (other) "\<not> IsDir info" "\<not> HasSuffix (Name info) ''.java''"
        "\<not> (Name info = ''pom.xml'' \<or> Name info = ''build.gradle'')"
    by blast
  then show ?thesis
  proof cases
    case skip
    have "(res, r') = (Some SkipDir, r)"
      using visit_skip [OF skip, of os oldName newName path r] assms by simp
    then have "res = Some SkipDir" "r' = r" by simp_all
    then show ?thesis by (simp add: settled_def)
  next
    case dir
    have "(res, r') = (None, r)"
      using visit_other_dir [OF dir, of os oldName newName path r] assms by simp
    then have "res = None" "r' = r" by simp_all
    then show ?thesis by (simp add: settled_def)
  next
    case java
    from visit_java [OF java, of os oldName newName path r] assms
    have "processJavaFile os path oldName newName r = (res, r')" by simp
    then show ?thesis using java_mono java_settled by blast
  next
    case build
    from visit_build [OF build, of os oldName newName path r] assms
    have "processBuildFile os path oldName newName r = (res, r')" by simp
    then show ?thesis using build_mono build_settled by blast
  next
    case other
    have "(res, r') = (None, r)"
      using visit_other_file [OF other, of os oldName newName path r] assms by simp
    then have "res = None" "r' = r" by simp_all
    then show ?thesis by (simp add: settled_def)
  qed
qed

lemma visit_error:
  assumes "err \<noteq> None"
  shows "visit os oldName newName path info err r = (err, r)"
  using assms by (simp add: visit_def)

lemma good_intro:
  assumes "calls r' = calls r @ es" and "walked res es"
  shows "good r res r'"
proof -
  have "since r r' = es" using assms(1) by (simp add: since_def)
  then show ?thesis using assms unfolding good_def by simp
qed

lemma good_step:
  assumes "calls r1 = calls r @ es" and "clean es" and "good r1 res r'"
  shows "good r res r'"
proof -
  from assms(3) have c: "calls r' = calls r1 @ since r1 r'" and w: "walked res (since r1 r')"
    unfolding good_def by blast+
  from c have "calls r' = calls r @ (es @ since r1 r')" by (simp only: assms(1) append_assoc)
  moreover have "walked res (es @ since r1 r')" using assms(2) w by (rule walked_append)
  ultimately show ?thesis by (rule good_intro)
qed

lemma good_clean:
  assumes "good r res r'" and "res = None \<or> res = Some None \<or> res = Some (Some SkipDir)"
  shows "calls r' = calls r @ since r r'" and "clean (since r r')"
proof -
  from assms(1) show "calls r' = calls r @ since r r'" unfolding good_def by blast
  from assms(1) have "walked res (since r r')" unfolding good_def by blast
  then show "clean (since r r')" using assms(2) by (auto simp: walked_def settled_def)
qed

lemma good_failed:
  assumes "calls r' = calls r @ [ev]" and "error_of ev = Some m"
  shows "good r (Some (Some (Err m))) r'"
  using assms by (intro good_intro [of _ _ "[ev]"]) (simp_all add: walked_def settled_def aborted_def)

text \<open>The walk keeps the discipline of its callback: an error ends it at the call that failed.\<close>

lemma walk_names_good:
  assumes fn_ok: "\<And>path info r res r'. fn path (Some info) None r = (res, r') \<Longrightarrow> good r (Some res) r'"
      and fn_err: "\<And>path info e r. fn path info (Some e) r = (Some e, r)"
      and W: "\<And>path info r res r'. walk os fn k path info r = (res, r') \<Longrightarrow> good r res r'"
      and run: "walk_names os fn k path names r = (res, r')"
  shows "good r res r'"
  using run
proof (induction names arbitrary: r res r')
  case Nil
  then have "res = Some None" "r' = r" by simp_all
  then show ?case by (simp add: good_def walked_def settled_def)
next
  case (Cons name names)
  let ?f = "filepath_Join [path, name]"
  obtain x r1 where L: "call_Lstat os ?f r = (x, r1)" by (cases "call_Lstat os ?f r")
  from call_Lstat_step [OF L] have c1: "calls r1 = calls r @ [Lstat ?f x]" .
  show ?case
  proof (cases x)
    case (Inl e)
    have "fn ?f None (Some (wrap e)) r1 = (Some (wrap e), r1)" by (rule fn_err)
    with Cons.prems L Inl have "res = Some (Some (wrap e))" "r' = r1"
      by (simp_all add: wrap_def)
    then show ?thesis using c1 Inl good_failed [of r1 r "Lstat ?f (Inl e)" "Error e"]
      by (simp add: wrap_def)
  next
    case (Inr fi)
    obtain res1 r2 where W1: "walk os fn k ?f fi r1 = (res1, r2)" by (cases "walk os fn k ?f fi r1")
    from W [OF W1] have g1: "good r1 res1 r2" .
    have cl: "clean [Lstat ?f x]" using Inr by simp
    have unf: "walk_names os fn k path (name # names) r =
                 (case res1 of
                    None \<Rightarrow> (None, r2)
                  | Some err \<Rightarrow>
                      if err \<noteq> None \<and> (\<not> IsDir fi \<or> err \<noteq> Some SkipDir) then (Some err, r2)
                      else walk_names os fn k path names r2)"
      using L Inr W1 by (simp add: Let_def)
    have run': "(case res1 of
                    None \<Rightarrow> (None, r2)
                  | Some err \<Rightarrow>
                      if err \<noteq> None \<and> (\<not> IsDir fi \<or> err \<noteq> Some SkipDir) then (Some err, r2)
                      else walk_names os fn k path names r2) = (res, r')"
      using Cons.prems unfolding unf .
    show ?thesis
    proof (cases "res1 = None \<or> (\<exists>err. res1 = Some (Some err) \<and> (\<not> IsDir fi \<or> err \<noteq> SkipDir))")
      case True
      with run' have "res = res1" "r' = r2" by (auto split: option.splits if_splits)
      then show ?thesis using good_step [OF c1 cl g1] by simp
    next
      case False
      then obtain a where a: "res1 = Some a" by (cases res1) auto
      have "a = None \<or> a = Some SkipDir"
      proof (cases a)
        case None
        then show ?thesis by simp
      next
        case (Some err)
        with False a have "err = SkipDir" by auto
        with Some show ?thesis by simp
      qed
      with a have r1': "res1 = Some None \<or> res1 = Some (Some SkipDir)" by auto
      have dir: "res1 = Some (Some SkipDir) \<longrightarrow> IsDir fi" using False by auto
      from r1' dir run' have "walk_names os fn k path names r2 = (res, r')"
        by (elim disjE) simp_all
      then have g2: "good r2 res r'" by (rule Cons.IH)
      from r1' g1 have "calls r2 = calls r1 @ since r1 r2" "clean (since r1 r2)"
        using good_clean by blast+
      then have "good r1 res r'" using g2 by (rule good_step)
      then show ?thesis using good_step [OF c1 cl] by blast
    qed
  qed
qed

lemma walk_good:
  assumes fn_ok: "\<And>path info r res r'. fn path (Some info) None r = (res, r') \<Longrightarrow> good r (Some res) r'"
      and fn_err: "\<And>path info e r. fn path info (Some e) r = (Some e, r)"
      and run: "walk os fn k path info r = (res, r')"
  shows "good r res r'"
  using run
proof (induction k arbitrary: path info r res r')
  case 0
  then have "res = None" "r' = r" by simp_all
  then show ?case by (simp add: good_def walked_def)
next
  case (Suc k)
  have N: "good r res r'" if n: "walk_names os fn k path names r = (res, r')"
    for path names r res r'
  proof (rule walk_names_good [where fn = fn and os = os and k = k])
    show "\<And>path info r res r'. fn path (Some info) None r = (res, r') \<Longrightarrow> good r (Some res) r'"
      by (rule fn_ok)
    show "\<And>path info e r. fn path info (Some e) r = (Some e, r)" by (rule fn_err)
    show "\<And>path info r res r'. walk os fn k path info r = (res, r') \<Longrightarrow> good r res r'"
      by (rule Suc.IH)
    show "walk_names os fn k path names r = (res, r')" by (rule n)
  qed
  show ?case
  proof (cases "IsDir info")
    case False
    obtain err r1 where F: "fn path (Some info) None r = (err, r1)"
      by (cases "fn path (Some info) None r")
    with Suc.prems False have "res = Some err" "r' = r1" by simp_all
    then show ?thesis using fn_ok [OF F] by simp
  next
    case True
    obtain x r1 where R: "call_readDirNames os path r = (x, r1)"
      by (cases "call_readDirNames os path r")
    from call_readDirNames_step [OF R] have c1: "calls r1 = calls r @ [ReadDirNames path x]" .
    show ?thesis
    proof (cases x)
      case (Inl e)
      have "fn path (Some info) (Some (wrap e)) r1 = (Some (wrap e), r1)" by (rule fn_err)
      with Suc.prems True R Inl have "res = Some (Some (wrap e))" "r' = r1"
        by simp_all
      then show ?thesis using c1 Inl good_failed [of r1 r "ReadDirNames path (Inl e)" "Error e"]
        by (simp add: wrap_def)
    next
      case (Inr names)
      have cl: "clean [ReadDirNames path x]" using Inr by simp
      obtain err1 r2 where F: "fn path (Some info) None r1 = (err1, r2)"
        by (cases "fn path (Some info) None r1")
      from fn_ok [OF F] have g1: "good r1 (Some err1) r2" .
      have unf: "walk os fn (Suc k) path info r =
                   (if err1 \<noteq> None then (Some err1, r2) else walk_names os fn k path names r2)"
        using True R Inr F by simp
      show ?thesis
      proof (cases err1)
        case (Some e1)
        with Suc.prems unf have "res = Some err1" "r' = r2" by simp_all
        then show ?thesis using good_step [OF c1 cl g1] by simp
      next
        case None
        with Suc.prems unf have "walk_names os fn k path names r2 = (res, r')" by simp
        then have g2: "good r2 res r'" by (rule N)
        from None g1 have "calls r2 = calls r1 @ since r1 r2" "clean (since r1 r2)"
          using good_clean by blast+
        then have "good r1 res r'" using g2 by (rule good_step)
        then show ?thesis using good_step [OF c1 cl] by blast
      qed
    qed
  qed
qed

lemma Walk_good:
  assumes fn_ok: "\<And>path info r res r'. fn path (Some info) None r = (res, r') \<Longrightarrow> good r (Some res) r'"
      and fn_err: "\<And>path info e r. fn path info (Some e) r = (Some e, r)"
      and run: "Walk os root fn fuel r = (res, r')"
  shows "good r res r' \<and> res \<noteq> Some (Some SkipDir)"
proof -
  obtain x r1 where L: "call_Lstat os root r = (x, r1)" by (cases "call_Lstat os root r")
  from call_Lstat_step [OF L] have c1: "calls r1 = calls r @ [Lstat root x]" .
  show ?thesis
  proof (cases x)
    case (Inl e)
    have "fn root None (Some (wrap e)) r1 = (Some (wrap e), r1)" by (rule fn_err)
    with run L Inl have "res = Some (Some (wrap e))" "r' = r1"
      by (simp_all add: Walk_def wrap_def)
    then show ?thesis using c1 Inl good_failed [of r1 r "Lstat root (Inl e)" "Error e"]
      by (simp add: wrap_def)
  next
    case (Inr info)
    have cl: "clean [Lstat root x]" using Inr by simp
    obtain res1 r2 where W1: "walk os fn fuel root info r1 = (res1, r2)"
      by (cases "walk os fn fuel root info r1")
    have g1: "good r1 res1 r2"
    proof (rule walk_good [where fn = fn and os = os])
      show "\<And>path info r res r'. fn path (Some info) None r = (res, r') \<Longrightarrow> good r (Some res) r'"
        by (rule fn_ok)
      show "\<And>path info e r. fn path info (Some e) r = (Some e, r)" by (rule fn_err)
      show "walk os fn fuel root info r1 = (res1, r2)" by (rule W1)
    qed
    from run L Inr W1 have res: "r' = r2"
      "res = (case res1 of None \<Rightarrow> None | Some err \<Rightarrow> Some (if err = Some SkipDir then None else err))"
      by (auto simp: Walk_def split: option.splits)
    have "walked res1 (since r1 r2)" using g1 unfolding good_def by blast
    then have "walked res (since r1 r2)"
      using res(2) by (auto simp: walked_def settled_def split: option.splits error.splits)
    moreover have "calls r2 = calls r1 @ since r1 r2" using g1 unfolding good_def by blast
    ultimately have "good r1 res r2" unfolding good_def by blast
    then have "good r res r2" using good_step [OF c1 cl] by blast
    moreover have "res \<noteq> Some (Some SkipDir)" using res(2) by (auto split: option.splits)
    ultimately show ?thesis using res(1) by simp
  qed
qed

lemma visit_good:
  assumes "visit os oldName newName path (Some info) None r = (res, r')"
  shows "good r (Some res) r'"
proof -
  have "walked (Some res) (since r r') = settled res (since r r')" by (simp add: walked_def)
  then show ?thesis using visit_settled [OF assms] unfolding good_def by blast
qed

lemma main_good:
  assumes "projectDir \<noteq> []" and "oldName \<noteq> []" and "newName \<noteq> []"
      and "main os projectDir oldName newName fuel r = (ex, r')"
  shows "calls r' = calls r @ since r r' \<and>
         (case ex of
            None \<Rightarrow> clean (since r r')
          | Some Exit0 \<Rightarrow> clean (since r r')
          | Some (Fatal msg) \<Rightarrow> (\<exists>m. aborted (since r r') m \<and> msg = ''Error walking the directory: '' @ m)
          | Some Panic \<Rightarrow> False)"
proof -
  let ?r0 = "Printf (''Renaming Java project in '' @ projectDir @ '' from '' @ [CHR 0x27]
               @ oldName @ [CHR 0x27] @ '' to '' @ [CHR 0x27] @ newName @ [CHR 0x27]) r"
  obtain res r1 where Wk: "Walk os projectDir (visit os oldName newName) fuel ?r0 = (res, r1)"
    by (cases "Walk os projectDir (visit os oldName newName) fuel ?r0")
  have verr: "\<And>path info e r. visit os oldName newName path info (Some e) r = (Some e, r)"
    by (simp add: visit_error)
  have "good ?r0 res r1 \<and> res \<noteq> Some (Some SkipDir)"
  proof (rule Walk_good [where fn = "visit os oldName newName" and os = os])
    show "\<And>path info r res r'. visit os oldName newName path (Some info) None r = (res, r')
            \<Longrightarrow> good r (Some res) r'"
      by (rule visit_good)
    show "\<And>path info e r. visit os oldName newName path info (Some e) r = (Some e, r)"
      by (rule verr)
    show "Walk os projectDir (visit os oldName newName) fuel ?r0 = (res, r1)" by (rule Wk)
  qed
  then have g: "good ?r0 res r1" and ns: "res \<noteq> Some (Some SkipDir)" by blast+
  have s0: "since ?r0 r1 = since r r1" by (simp add: since_def)
  from g have c: "calls r1 = calls r @ since r r1" and w: "walked res (since r r1)"
    unfolding good_def s0 Printf_simps by blast+
  have m: "main os projectDir oldName newName fuel r =
             (case res of
                None \<Rightarrow> (None, r1)
              | Some (Some NilDeref) \<Rightarrow> (Some Panic, r1)
              | Some (Some err) \<Rightarrow> (Some (Fatal (''Error walking the directory: '' @ message err)), r1)
              | Some None \<Rightarrow>
                  (Some Exit0,
                   Printf ''Renaming complete. Please verify the changes and rebuild your Java project.'' r1))"
    using assms(1,2,3) Wk by (simp add: main_def)
  have same: "calls r' = calls r1"
    using m assms(4) by (auto split: option.splits error.splits)
  then have s1: "since r r' = since r r1" by (simp add: since_def)
  have 1: "calls r' = calls r @ since r r'" using c unfolding same s1 .
  have w': "walked res (since r r')" using w unfolding s1 .
  have 2: "(case ex of
            None \<Rightarrow> clean (since r r')
          | Some Exit0 \<Rightarrow> clean (since r r')
          | Some (Fatal msg) \<Rightarrow> (\<exists>m. aborted (since r r') m \<and> msg = ''Error walking the directory: '' @ m)
          | Some Panic \<Rightarrow> False)"
  proof (cases res)
    case None
    with m assms(4) have "ex = None" by simp
    then show ?thesis using w' None by (simp add: walked_def)
  next
    case (Some a)
    show ?thesis
    proof (cases a)
      case None
      with Some m assms(4) have "ex = Some Exit0" by auto
      then show ?thesis using w' Some None by (simp add: walked_def settled_def)
    next
      case (Some err)
      show ?thesis
      proof (cases err)
        case SkipDir
        with \<open>res = Some a\<close> Some ns show ?thesis by simp
      next
        case (Err msg)
        with \<open>res = Some a\<close> Some m assms(4)
        have "ex = Some (Fatal (''Error walking the directory: '' @ msg))"
          by (simp add: message_def)
        then show ?thesis using w' \<open>res = Some a\<close> Some Err
          by (simp add: walked_def settled_def)
      next
        case NilDeref
        with \<open>res = Some a\<close> Some w' show ?thesis by (simp add: walked_def settled_def)
      qed
    qed
  qed
  from 1 2 show ?thesis by (rule conjI)
qed

section \<open>The claims of the specification\<close>

text \<open>
  C7. When one of the three flags \<^verbatim>\<open>--dir\<close>, \<^verbatim>\<open>--old\<close>, \<^verbatim>\<open>--new\<close> is missing or
  empty, the program prints the usage and ends with a fatal error; it has made no call
  to the file system and the world is as it was.
\<close>

theorem missing_flag_is_fatal:
  assumes "projectDir = [] \<or> oldName = [] \<or> newName = []"
  shows "main os projectDir oldName newName fuel r =
           (Some (Fatal ''All flags --dir, --old, and --new are required.''),
            r\<lparr>printed := printed r @ [Usage]\<rparr>) \<and>
         calls (snd (main os projectDir oldName newName fuel r)) = calls r \<and>
         world (snd (main os projectDir oldName newName fuel r)) = world r"
  using assms by (auto simp: main_def)

theorem missing_flag_is_fatal_witness:
  "main mem_os ''/proj'' [] ''com.new'' 10 (start project) =
     (Some (Fatal ''All flags --dir, --old, and --new are required.''),
      \<lparr>world = project, calls = [], printed = [Usage]\<rparr>)"
  using missing_flag_is_fatal [of "''/proj''" "[]" "''com.new''" mem_os 10 "start project"]
  by (simp add: start_def)

text \<open>
  C10. The path rewrite of the Java file processor looks for the old package path in
  the whole path of the file, the project root included. When the root itself contains
  the old package path, the first occurrence lies in the root: the file is renamed to
  the rewritten root followed by the unchanged rest of its path, so the package
  directories below the root keep their old names. The project at
  \<^verbatim>\<open>/home/com/old/proj\<close> is an example.
\<close>

theorem root_prefix_is_rewritten:
  assumes "Contains root (ReplaceAll oldName ''.'' [Separator])"
      and "Replace root (ReplaceAll oldName ''.'' [Separator]) (ReplaceAll newName ''.'' [Separator]) 1 \<noteq> root"
      and "processJavaFile os (root @ rest) oldName newName r = (None, r')"
  shows "renames (since r r') =
           [(root @ rest,
             Replace root (ReplaceAll oldName ''.'' [Separator]) (ReplaceAll newName ''.'' [Separator]) 1 @ rest)]"
proof -
  have c: "Contains (root @ rest) (ReplaceAll oldName ''.'' [Separator])"
    using assms(1) unfolding Contains_iff by (metis append.assoc)
  show ?thesis
    using java_renames [OF assms(3)] c assms(2)
    by (simp add: Replace_first_in_prefix [OF assms(1)])
qed

theorem root_prefix_is_rewritten_witness:
  "Contains ''/home/com/old/proj'' (ReplaceAll ''com.old'' ''.'' [Separator]) \<and>
   renames (since (start nested_project)
      (snd (processJavaFile mem_os (''/home/com/old/proj'' @ ''/src/com/old/Foo.java'')
              ''com.old'' ''com.new'' (start nested_project))))
     = [(''/home/com/old/proj/src/com/old/Foo.java'', ''/home/com/new/proj/src/com/old/Foo.java'')] \<and>
   lookup (world (snd (processJavaFile mem_os (''/home/com/old/proj'' @ ''/src/com/old/Foo.java'')
              ''com.old'' ''com.new'' (start nested_project))))
     ''/home/com/new/proj/src/com/old/Foo.java'' = Some (File ''package com.new;'') \<and>
   lookup (world (snd (processJavaFile mem_os (''/home/com/old/proj'' @ ''/src/com/old/Foo.java'')
              ''com.old'' ''com.new'' (start nested_project))))
     ''/home/com/old/proj/src/com/old/Foo.java'' = None \<and>
   lookup (world (snd (processJavaFile mem_os (''/home/com/old/proj'' @ ''/src/com/old/Foo.java'')
              ''com.old'' ''com.new'' (start nested_project))))
     ''/home/com/old/proj/src/com/new/Foo.java'' = None"
proof -
  let ?X = "processJavaFile mem_os (''/home/com/old/proj'' @ ''/src/com/old/Foo.java'')
              ''com.old'' ''com.new'' (start nested_project)"
  have a: "Contains ''/home/com/old/proj'' (ReplaceAll ''com.old'' ''.'' [Separator])"
    by code_simp
  have b: "Replace ''/home/com/old/proj'' (ReplaceAll ''com.old'' ''.'' [Separator])
             (ReplaceAll ''com.new'' ''.'' [Separator]) 1 = ''/home/com/new/proj''"
    by code_simp
  have "fst ?X = None" by code_simp
  then have c: "?X = (None, snd ?X)" by (simp add: prod_eq_iff)
  have l1: "lookup (world (snd ?X)) ''/home/com/new/proj/src/com/old/Foo.java''
              = Some (File ''package com.new;'')" by code_simp
  have l2: "lookup (world (snd ?X)) ''/home/com/old/proj/src/com/old/Foo.java'' = None"
    by code_simp
  have l3: "lookup (world (snd ?X)) ''/home/com/old/proj/src/com/new/Foo.java'' = None"
    by code_simp
  have "renames (since (start nested_project) (snd ?X))
          = [(''/home/com/old/proj/src/com/old/Foo.java'', ''/home/com/new/proj/src/com/old/Foo.java'')]"
    using root_prefix_is_rewritten [OF a _ c] a b by simp
  then show ?thesis using a l1 l2 l3 by (intro conjI)
qed

text \<open>
  C1. The Java file processor rewrites the content it read by replacing every
  occurrence of \<^verbatim>\<open>"package " + old\<close> with \<^verbatim>\<open>"package " + new\<close> and then every
  occurrence of \<^verbatim>\<open>"import " + old\<close> with \<^verbatim>\<open>"import " + new\<close>. That result is the only
  content it writes, to the file it read, and a content in which neither string occurs
  is left as it is. The file containing \<^verbatim>\<open>package com.old.foo;\<close> becomes
  \<^verbatim>\<open>package com.new.foo;\<close>.
\<close>

theorem java_content_rewritten:
  assumes "processJavaFile os filePath oldName newName r = (res, r')"
      and "os_ReadFile os filePath (world r) = (Inr content, w)"
  shows "javaContent oldName newName content =
           ReplaceAll (ReplaceAll content (''package '' @ oldName) (''package '' @ newName))
             (''import '' @ oldName) (''import '' @ newName) \<and>
         writes (since r r') =
           (if javaContent oldName newName content \<noteq> content
            then [(filePath, javaContent oldName newName content)] else []) \<and>
         (\<not> Contains content (''package '' @ oldName) \<and> \<not> Contains content (''import '' @ oldName)
            \<longrightarrow> javaContent oldName newName content = content) \<and>
         javaContent ''com.old'' ''com.new'' ''package com.old.foo;'' = ''package com.new.foo;''"
proof -
  have "javaContent ''com.old'' ''com.new'' ''package com.old.foo;'' = ''package com.new.foo;''"
    by code_simp
  then show ?thesis
    using java_writes [OF assms]
    by (simp add: javaContent_def Let_def ReplaceAll_absent)
qed

theorem java_content_rewritten_witness:
  "writes (since (start project)
      (snd (processJavaFile mem_os ''/proj/src/com/old/Foo.java'' ''com.old'' ''com.new'' (start project))))
     = [(''/proj/src/com/old/Foo.java'', ''package com.new.foo;'')] \<and>
   lookup (world (snd (processJavaFile mem_os ''/proj/src/com/old/Foo.java'' ''com.old'' ''com.new''
      (start project)))) ''/proj/src/com/new/Foo.java'' = Some (File ''package com.new.foo;'')"
proof -
  let ?X = "processJavaFile mem_os ''/proj/src/com/old/Foo.java'' ''com.old'' ''com.new'' (start project)"
  have rd: "os_ReadFile mem_os ''/proj/src/com/old/Foo.java'' (world (start project))
              = (Inr ''package com.old.foo;'', project)"
    by code_simp
  have run: "?X = (fst ?X, snd ?X)" by simp
  have l: "lookup (world (snd ?X)) ''/proj/src/com/new/Foo.java'' = Some (File ''package com.new.foo;'')"
    by code_simp
  from java_content_rewritten [OF run rd]
  have w: "writes (since (start project) (snd ?X)) =
             (if javaContent ''com.old'' ''com.new'' ''package com.old.foo;'' \<noteq> ''package com.old.foo;''
              then [(''/proj/src/com/old/Foo.java'',
                     javaContent ''com.old'' ''com.new'' ''package com.old.foo;'')] else [])"
    and e: "javaContent ''com.old'' ''com.new'' ''package com.old.foo;'' = ''package com.new.foo;''"
    by blast+
  show ?thesis using w l unfolding e by simp
qed

text \<open>
  C6. A processor that has read a file writes it back exactly when the rewritten content
  differs from the content read, and what it writes is the rewritten content, to that
  file. When the rewriting leaves the content as it was, no write is made: the build
  file processor then makes no call but the read.
\<close>

theorem written_only_if_changed:
  assumes "os_ReadFile os filePath (world r) = (Inr content, w)"
      and "processJavaFile os filePath oldName newName r = (resj, rj)"
      and "processBuildFile os filePath oldName newName r = (resb, rb)"
  shows "(writes (since r rj) \<noteq> []) = (javaContent oldName newName content \<noteq> content) \<and>
         (writes (since r rb) \<noteq> []) = (buildContent oldName newName content \<noteq> content) \<and>
         set (writes (since r rj)) \<subseteq> {(filePath, javaContent oldName newName content)} \<and>
         set (writes (since r rb)) \<subseteq> {(filePath, buildContent oldName newName content)} \<and>
         (buildContent oldName newName content = content \<longrightarrow> since r rb = [ReadFile filePath (Inr content)])"
  using java_writes [OF assms(2,1)] build_writes [OF assms(3,1)] build_unchanged [OF assms(3,1)]
  by simp

theorem written_only_if_changed_witness:
  "javaContent ''org.acme'' ''org.corp'' ''package com.old.foo;'' = ''package com.old.foo;'' \<and>
   writes (since (start project)
     (snd (processJavaFile mem_os ''/proj/src/com/old/Foo.java'' ''org.acme'' ''org.corp'' (start project)))) = [] \<and>
   world (snd (processJavaFile mem_os ''/proj/src/com/old/Foo.java'' ''org.acme'' ''org.corp'' (start project)))
     = project \<and>
   writes (since (start project)
     (snd (processBuildFile mem_os ''/proj/src/com/old/Foo.java'' ''com.old'' ''com.new'' (start project))))
     = [(''/proj/src/com/old/Foo.java'', ''package com.new.foo;'')] \<and>
   lookup (world (snd (processBuildFile mem_os ''/proj/src/com/old/Foo.java'' ''com.old'' ''com.new''
     (start project)))) ''/proj/src/com/old/Foo.java'' = Some (File ''package com.new.foo;'') \<and>
   lookup (world (snd (processJavaFile mem_os ''/proj/src/com/old/Foo.java'' ''org.acme'' ''org.corp''
     (start project)))) ''/proj/src/com/old/Foo.java'' = Some (File ''package com.old.foo;'')"
proof -
  let ?p = "''/proj/src/com/old/Foo.java''"
  let ?J = "processJavaFile mem_os ?p ''org.acme'' ''org.corp'' (start project)"
  let ?B = "processBuildFile mem_os ?p ''org.acme'' ''org.corp'' (start project)"
  let ?J' = "processJavaFile mem_os ?p ''com.old'' ''com.new'' (start project)"
  let ?B' = "processBuildFile mem_os ?p ''com.old'' ''com.new'' (start project)"
  have rd: "os_ReadFile mem_os ?p (world (start project)) = (Inr ''package com.old.foo;'', project)"
    by code_simp
  have j: "javaContent ''org.acme'' ''org.corp'' ''package com.old.foo;'' = ''package com.old.foo;''"
    by code_simp
  have b: "buildContent ''com.old'' ''com.new'' ''package com.old.foo;'' = ''package com.new.foo;''"
    by code_simp
  have wd: "world (snd ?J) = project" by code_simp
  from written_only_if_changed [OF rd, of "''org.acme''" "''org.corp''" "fst ?J" "snd ?J" "fst ?B" "snd ?B"]
  have 1: "writes (since (start project) (snd ?J)) = []" using j by simp
  from written_only_if_changed [OF rd, of "''com.old''" "''com.new''" "fst ?J'" "snd ?J'" "fst ?B'" "snd ?B'"]
  have "writes (since (start project) (snd ?B')) \<noteq> []"
    and "set (writes (since (start project) (snd ?B'))) \<subseteq> {(?p, ''package com.new.foo;'')}"
    using b by simp_all
  moreover have "length (writes (since (start project) (snd ?B'))) \<le> 1"
    using build_writes [of mem_os ?p "''com.old''" "''com.new''" "start project" "fst ?B'" "snd ?B'", OF _ rd]
    by simp
  ultimately have 2: "writes (since (start project) (snd ?B')) = [(?p, ''package com.new.foo;'')]"
    by (cases "writes (since (start project) (snd ?B'))") auto
  have l1: "lookup (world (snd ?B')) ?p = Some (File ''package com.new.foo;'')" by code_simp
  have l2: "lookup (world (snd ?J)) ?p = Some (File ''package com.old.foo;'')" by code_simp
  show ?thesis by (intro conjI) (rule j, rule 1, rule wd, rule 2, rule l1, rule l2)
qed

text \<open>
  C9. When the old name equals the new name, each processor only reads the file: both
  content rewritings are the identity, so nothing is written, and the rewritten path is
  the path itself, so nothing is renamed and no directory is created.
\<close>

theorem same_name_changes_nothing:
  "since r (snd (processJavaFile os filePath name name r))
     = [ReadFile filePath (fst (os_ReadFile os filePath (world r)))] \<and>
   since r (snd (processBuildFile os filePath name name r))
     = [ReadFile filePath (fst (os_ReadFile os filePath (world r)))] \<and>
   javaContent name name content = content \<and>
   buildContent name name content = content \<and>
   Replace filePath (ReplaceAll name ''.'' [Separator]) (ReplaceAll name ''.'' [Separator]) 1 = filePath"
  by (simp add: java_calls_same build_calls_same)

theorem same_name_changes_nothing_witness:
  "since (start project)
     (snd (processJavaFile mem_os ''/proj/src/com/old/Foo.java'' ''com.old'' ''com.old'' (start project)))
     = [ReadFile ''/proj/src/com/old/Foo.java'' (Inr ''package com.old.foo;'')] \<and>
   since (start project)
     (snd (processBuildFile mem_os ''/proj/pom.xml'' ''com.old'' ''com.old'' (start project)))
     = [ReadFile ''/proj/pom.xml'' (Inr ''<groupId>com.old</groupId>'')] \<and>
   world (snd (processJavaFile mem_os ''/proj/src/com/old/Foo.java'' ''com.old'' ''com.old'' (start project)))
     = project \<and>
   world (snd (processBuildFile mem_os ''/proj/pom.xml'' ''com.old'' ''com.old'' (start project)))
     = project"
proof -
  have 1: "fst (os_ReadFile mem_os ''/proj/src/com/old/Foo.java'' (world (start project)))
             = Inr ''package com.old.foo;''" by code_simp
  have 2: "fst (os_ReadFile mem_os ''/proj/pom.xml'' (world (start project)))
             = Inr ''<groupId>com.old</groupId>''" by code_simp
  have 3: "world (snd (processJavaFile mem_os ''/proj/src/com/old/Foo.java'' ''com.old'' ''com.old''
             (start project))) = project" by code_simp
  have 4: "world (snd (processBuildFile mem_os ''/proj/pom.xml'' ''com.old'' ''com.old''
             (start project))) = project" by code_simp
  show ?thesis
    using same_name_changes_nothing [of "start project" mem_os "''/proj/src/com/old/Foo.java''" "''com.old''"]
      same_name_changes_nothing [of "start project" mem_os "''/proj/pom.xml''" "''com.old''"]
      1 2 3 4 by simp
qed

text \<open>
  C2. When the path of a Java file contains the old package path (the old name with its
  dots replaced by separators), the processor, after reading and rewriting the file,
  renames it to its path with the first occurrence of the old package path replaced by
  the new one: that rename is its one rename and its last call. Before it, the
  processor asks for the target's directory and creates it, with its parents, exactly
  when \<^verbatim>\<open>os.Stat\<close> reports that it does not exist. A file whose path does not contain
  the old package path, or whose rewritten path is its own path, is not renamed and no
  directory is created for it.
\<close>

theorem java_file_moved:
  assumes "processJavaFile os filePath oldName newName r = (res, r')"
      and "oldPath = ReplaceAll oldName ''.'' [Separator]"
      and "newPath = ReplaceAll newName ''.'' [Separator]"
      and "target = Replace filePath oldPath newPath 1"
  shows "(res = None \<and> Contains filePath oldPath \<and> target \<noteq> filePath \<longrightarrow>
            renames (since r r') = [(filePath, target)] \<and>
            last (since r r') = Rename filePath target None \<and>
            (\<exists>st. Stat (Dir target) st \<in> set (since r r') \<and>
                  mkdirs (since r r') = (if notexist st then [Dir target] else []))) \<and>
         (\<not> Contains filePath oldPath \<or> target = filePath \<longrightarrow>
            renames (since r r') = [] \<and> mkdirs (since r r') = []) \<and>
         (\<forall>u v. filePath = u @ oldPath @ v \<and> \<not> Contains (u @ butlast oldPath) oldPath \<and>
                oldPath \<noteq> newPath \<longrightarrow> target = u @ newPath @ v)"
proof (intro conjI impI allI)
  assume a: "res = None \<and> Contains filePath oldPath \<and> target \<noteq> filePath"
  then have run: "processJavaFile os filePath oldName newName r = (None, r')"
    using assms(1) by simp
  show "renames (since r r') = [(filePath, target)]"
    using java_renames [OF run] a assms(2,3,4) by simp
  show "last (since r r') = Rename filePath target None"
    using java_move_last [OF run] a assms(2,3,4) by simp
  show "\<exists>st. Stat (Dir target) st \<in> set (since r r') \<and>
          mkdirs (since r r') = (if notexist st then [Dir target] else [])"
    using java_mkdirs [OF run, of target] a assms(2,3,4) by simp
next
  assume "\<not> Contains filePath oldPath \<or> target = filePath"
  then have "renames (since r r') = [] \<and> mkdirs (since r r') = []"
    using java_no_move [OF assms(1)] assms(2,3,4) by simp
  then show "renames (since r r') = []" "mkdirs (since r r') = []" by simp_all
next
  fix u v
  assume "filePath = u @ oldPath @ v \<and> \<not> Contains (u @ butlast oldPath) oldPath \<and> oldPath \<noteq> newPath"
  then show "target = u @ newPath @ v"
    using Replace_first [of oldPath newPath u v] assms(4) by simp
qed

theorem java_file_moved_witness:
  "Contains ''/proj/src/com/old/Foo.java'' (ReplaceAll ''com.old'' ''.'' [Separator]) \<and>
   Replace ''/proj/src/com/old/Foo.java'' (ReplaceAll ''com.old'' ''.'' [Separator])
     (ReplaceAll ''com.new'' ''.'' [Separator]) 1 = ''/proj/src/com/new/Foo.java'' \<and>
   renames (since (start project)
      (snd (processJavaFile mem_os ''/proj/src/com/old/Foo.java'' ''com.old'' ''com.new'' (start project))))
     = [(''/proj/src/com/old/Foo.java'', ''/proj/src/com/new/Foo.java'')] \<and>
   mkdirs (since (start project)
      (snd (processJavaFile mem_os ''/proj/src/com/old/Foo.java'' ''com.old'' ''com.new'' (start project))))
     = [''/proj/src/com/new''] \<and>
   lookup (world (snd (processJavaFile mem_os ''/proj/src/com/old/Foo.java'' ''com.old'' ''com.new''
      (start project)))) ''/proj/src/com/old/Foo.java'' = None \<and>
   lookup (world (snd (processJavaFile mem_os ''/proj/src/com/old/Foo.java'' ''com.old'' ''com.new''
      (start project)))) ''/proj/src/com/new/Foo.java'' = Some (File ''package com.new.foo;'')"
proof -
  let ?p = "''/proj/src/com/old/Foo.java''"
  let ?X = "processJavaFile mem_os ?p ''com.old'' ''com.new'' (start project)"
  have c: "Contains ?p (ReplaceAll ''com.old'' ''.'' [Separator])" by code_simp
  have t: "Replace ?p (ReplaceAll ''com.old'' ''.'' [Separator])
             (ReplaceAll ''com.new'' ''.'' [Separator]) 1 = ''/proj/src/com/new/Foo.java''"
    by code_simp
  have f: "fst ?X = None" by code_simp
  have run: "?X = (fst ?X, snd ?X)" by simp
  have m: "mkdirs (since (start project) (snd ?X)) = [''/proj/src/com/new'']" by code_simp
  have l1: "lookup (world (snd ?X)) ?p = None" by code_simp
  have l2: "lookup (world (snd ?X)) ''/proj/src/com/new/Foo.java'' = Some (File ''package com.new.foo;'')"
    by code_simp
  have ne: "Replace ?p (ReplaceAll ''com.old'' ''.'' [Separator])
              (ReplaceAll ''com.new'' ''.'' [Separator]) 1 \<noteq> ?p"
    unfolding t by simp
  from java_file_moved [OF run refl refl refl] f c ne
  have "renames (since (start project) (snd ?X)) =
          [(?p, Replace ?p (ReplaceAll ''com.old'' ''.'' [Separator])
                  (ReplaceAll ''com.new'' ''.'' [Separator]) 1)]"
    by blast
  then have rn: "renames (since (start project) (snd ?X)) = [(?p, ''/proj/src/com/new/Foo.java'')]"
    unfolding t .
  show ?thesis
    by (intro conjI) (rule c, rule t, rule rn, rule m, rule l1, rule l2)
qed

text \<open>
  C3. The build file processor rewrites the content it read in three steps, each a
  replacement of every occurrence anywhere in the content, applied to the result of the
  step before: the full old name by the full new name; the trailing segment of the old
  name (the artifact) by that of the new name; and, only when the dotted prefixes (the
  groups) of both names are not empty, the old group by the new group. The trailing
  segment and the dotted prefix are what the source takes from splitting the name at its
  dots. That result is the only content the processor writes.
\<close>

theorem build_content_rewritten:
  assumes "processBuildFile os filePath oldName newName r = (res, r')"
      and "os_ReadFile os filePath (world r) = (Inr content, w)"
  shows "buildContent oldName newName content = spec_buildContent oldName newName content \<and>
         writes (since r r') =
           (if spec_buildContent oldName newName content \<noteq> content
            then [(filePath, spec_buildContent oldName newName content)] else []) \<and>
         oldName = (if CHR ''.'' \<in> set oldName
                    then dotted_prefix oldName @ ''.'' @ trailing_segment oldName
                    else trailing_segment oldName) \<and>
         CHR ''.'' \<notin> set (trailing_segment oldName)"
  using build_writes [OF assms] dotted_name_parts [of oldName]
  by (simp add: buildContent_spec)

theorem build_content_rewritten_witness:
  "spec_buildContent ''com.old'' ''org.new''
     ''<groupId>com.old</groupId><artifactId>old</artifactId><name>common folder</name>''
     = ''<groupId>org.new</groupId><artifactId>new</artifactId><name>orgmon fnewer</name>'' \<and>
   writes (since (start project)
     (snd (processBuildFile mem_os ''/proj/pom.xml'' ''com.old'' ''org.new'' (start project))))
     = [(''/proj/pom.xml'', ''<groupId>org.new</groupId>'')] \<and>
   lookup (world (snd (processBuildFile mem_os ''/proj/pom.xml'' ''com.old'' ''org.new'' (start project))))
     ''/proj/pom.xml'' = Some (File ''<groupId>org.new</groupId>'')"
proof -
  let ?X = "processBuildFile mem_os ''/proj/pom.xml'' ''com.old'' ''org.new'' (start project)"
  have rd: "os_ReadFile mem_os ''/proj/pom.xml'' (world (start project))
              = (Inr ''<groupId>com.old</groupId>'', project)" by code_simp
  have run: "?X = (fst ?X, snd ?X)" by simp
  have e: "buildContent ''com.old'' ''org.new''
             ''<groupId>com.old</groupId><artifactId>old</artifactId><name>common folder</name>''
           = ''<groupId>org.new</groupId><artifactId>new</artifactId><name>orgmon fnewer</name>''"
    by code_simp
  have b: "buildContent ''com.old'' ''org.new'' ''<groupId>com.old</groupId>'' = ''<groupId>org.new</groupId>''"
    by code_simp
  have l: "lookup (world (snd ?X)) ''/proj/pom.xml'' = Some (File ''<groupId>org.new</groupId>'')"
    by code_simp
  from build_content_rewritten [OF run rd]
  have s: "buildContent ''com.old'' ''org.new'' ''<groupId>com.old</groupId>''
             = spec_buildContent ''com.old'' ''org.new'' ''<groupId>com.old</groupId>''"
    and w: "writes (since (start project) (snd ?X)) =
           (if spec_buildContent ''com.old'' ''org.new'' ''<groupId>com.old</groupId>'' \<noteq> ''<groupId>com.old</groupId>''
            then [(''/proj/pom.xml'', spec_buildContent ''com.old'' ''org.new'' ''<groupId>com.old</groupId>'')] else [])"
    by blast+
  have w': "writes (since (start project) (snd ?X)) = [(''/proj/pom.xml'', ''<groupId>org.new</groupId>'')]"
    using w unfolding s [symmetric] b by simp
  have e': "spec_buildContent ''com.old'' ''org.new''
     ''<groupId>com.old</groupId><artifactId>old</artifactId><name>common folder</name>''
     = ''<groupId>org.new</groupId><artifactId>new</artifactId><name>orgmon fnewer</name>''"
    using e by (simp only: buildContent_spec)
  show ?thesis by (intro conjI) (rule e', rule w', rule l)
qed




end
